theory Spec2Isabelle
  imports Main "HOL-Library.Sublist" "HOL-Library.Word"
begin

section \<open>Data model\<close>

text \<open>
  The file \<^verbatim>\<open>search.ts\<close> works on JavaScript strings, that is on sequences of
  16-bit code units. A string is a list of 16-bit words; \<open>js\<close> embeds an ASCII
  literal. Numbers are integers throughout this file of the program (indices, counts and
  scores), so a JavaScript number is an \<open>int\<close>.
\<close>

type_synonym jsString = "16 word list"

definition js :: "string \<Rightarrow> jsString" where
  "js s = map (\<lambda>c. of_nat (of_char c)) s"

text \<open>A match range is an inclusive pair of indices; a \<open>Matrix\<close> is a list of them.\<close>

type_synonym Matrix = "(int \<times> int) list"

text \<open>
  \<^verbatim>\<open>SourceMappingData\<close> is declared in \<^verbatim>\<open>types.ts\<close>; the fields are the ones
  \<^verbatim>\<open>search.ts\<close> reads.
\<close>

record SourceMappingData =
  pinyinString :: jsString
  boundary :: "(int \<times> int) list"
  originalIndices :: "int list"
  originalString :: jsString
  originalLength :: int

text \<open>
  What a call does: it returns a value (\<open>Some (Inr v)\<close>), throws (\<open>Some (Inl e)\<close>) or
  does not return (\<open>None\<close>). The only exception this code can raise is the
  \<^verbatim>\<open>TypeError\<close> of reading a property of \<^verbatim>\<open>undefined\<close>.
\<close>

datatype error = TypeError

type_synonym 'a outcome = "(error + 'a) option"

section \<open>JavaScript primitives used by the code\<close>

text \<open>\<^verbatim>\<open>xs[i]\<close>: \<^verbatim>\<open>undefined\<close> (here \<open>None\<close>) outside the array.\<close>

definition at :: "'a list \<Rightarrow> int \<Rightarrow> 'a option" where
  "at xs i = (if 0 \<le> i \<and> i < int (length xs) then Some (xs ! nat i) else None)"

text \<open>
  \<^verbatim>\<open>xs.slice(s, e)\<close> with integer arguments: a negative argument counts from the end,
  both are clamped to the length.
\<close>

definition relIndex :: "nat \<Rightarrow> int \<Rightarrow> nat" where
  "relIndex n i = (if i < 0 then nat (int n + i) else min (nat i) n)"

definition slice :: "'a list \<Rightarrow> int \<Rightarrow> int \<Rightarrow> 'a list" where
  "slice xs s e = take (relIndex (length xs) e - relIndex (length xs) s) (drop (relIndex (length xs) s) xs)"

text \<open>
  White space as \<^verbatim>\<open>String.prototype.trim\<close> and the regular expression class
  \<^verbatim>\<open>\s\<close> define it: the ECMAScript WhiteSpace and LineTerminator code units.
\<close>

definition isWhiteSpace :: "16 word \<Rightarrow> bool" where
  "isWhiteSpace c \<longleftrightarrow>
     c \<in> {0x9, 0xA, 0xB, 0xC, 0xD, 0x20, 0xA0, 0x1680, 0x2028, 0x2029, 0x202F, 0x205F, 0x3000, 0xFEFF}
     \<or> (0x2000 \<le> c \<and> c \<le> 0x200A)"

definition trim :: "jsString \<Rightarrow> jsString" where
  "trim s = rev (dropWhile isWhiteSpace (rev (dropWhile isWhiteSpace s)))"

text \<open>
  \<^verbatim>\<open>s.split(/\s+/)\<close>: the pieces between maximal runs of white space; a string that
  starts or ends with white space gives an empty first or last piece, and the empty string
  gives one empty piece.
\<close>

function splitWhiteSpace :: "jsString \<Rightarrow> jsString list" where
  "splitWhiteSpace s =
     (if dropWhile (\<lambda>c. \<not> isWhiteSpace c) s = [] then [s]
      else takeWhile (\<lambda>c. \<not> isWhiteSpace c) s
             # splitWhiteSpace (dropWhile isWhiteSpace (dropWhile (\<lambda>c. \<not> isWhiteSpace c) s)))"
  by pat_completeness auto
termination
proof (relation "measure length")
  fix s :: jsString
  assume ne: "dropWhile (\<lambda>c. \<not> isWhiteSpace c) s \<noteq> []"
  then obtain c cs where d: "dropWhile (\<lambda>c. \<not> isWhiteSpace c) s = c # cs"
    by (cases "dropWhile (\<lambda>c. \<not> isWhiteSpace c) s") auto
  have "length (dropWhile isWhiteSpace (c # cs)) \<le> length cs"
    using hd_dropWhile [OF ne] d length_dropWhile_le [of isWhiteSpace cs] by simp
  moreover have "length (c # cs) \<le> length s"
    using length_dropWhile_le [of "\<lambda>c. \<not> isWhiteSpace c" s] d by simp
  ultimately show "(dropWhile isWhiteSpace (dropWhile (\<lambda>c. \<not> isWhiteSpace c) s), s) \<in> measure length"
    using d by simp
qed simp

declare splitWhiteSpace.simps [simp del]

text \<open>
  \<^verbatim>\<open>source.indexOf(target)\<close>: the least index at which \<open>target\<close> occurs, \<open>-1\<close> when
  there is none. The empty string occurs at 0.
\<close>

fun indexOfFrom :: "int \<Rightarrow> 'a list \<Rightarrow> 'a list \<Rightarrow> int" where
  "indexOfFrom i [] target = (if target = [] then i else -1)"
| "indexOfFrom i (c # cs) target =
     (if prefix target (c # cs) then i else indexOfFrom (i + 1) cs target)"

definition indexOf :: "'a list \<Rightarrow> 'a list \<Rightarrow> int" where
  "indexOf source target = indexOfFrom 0 source target"

section \<open>searchWithIndexof\<close>

text \<open>
  \<^verbatim>\<open>~startIndex && [[startIndex, startIndex + target.length - 1]]\<close>: the number 0
  (falsy, here \<open>None\<close>) when \<open>indexOf\<close> gave \<open>-1\<close>, else the one-range matrix. The needle
  is the trimmed target; the length added is the one of the target as given.
\<close>

definition searchWithIndexof :: "jsString \<Rightarrow> jsString \<Rightarrow> Matrix option" where
  "searchWithIndexof source target =
     (let startIndex = indexOf source (trim target)
      in if startIndex = -1 then None
         else Some [(startIndex, startIndex + int (length target) - 1)])"

section \<open>searchByBoundaryMapping\<close>

subsection \<open>The slices and the greedy pass\<close>

text \<open>
  \<^verbatim>\<open>data.pinyinString.slice(data.originalIndices[startIndex], data.originalIndices[endIndex])\<close>
  and \<^verbatim>\<open>data.boundary.slice(data.originalIndices[startIndex], data.originalIndices[endIndex] + 1)\<close>.
  An index outside \<open>originalIndices\<close> reads \<^verbatim>\<open>undefined\<close>: as a start it counts as 0,
  as the end of the string slice as the length, and \<^verbatim>\<open>undefined + 1\<close> is \<^verbatim>\<open>NaN\<close>,
  which as the end of the array slice counts as 0.
\<close>

definition pinyinSlice :: "SourceMappingData \<Rightarrow> int \<Rightarrow> int \<Rightarrow> jsString" where
  "pinyinSlice data startIndex endIndex =
     slice (pinyinString data)
       (case at (originalIndices data) startIndex of None \<Rightarrow> 0 | Some a \<Rightarrow> a)
       (case at (originalIndices data) endIndex of None \<Rightarrow> int (length (pinyinString data)) | Some b \<Rightarrow> b)"

definition boundarySlice :: "SourceMappingData \<Rightarrow> int \<Rightarrow> int \<Rightarrow> (int \<times> int) list" where
  "boundarySlice data startIndex endIndex =
     slice (boundary data)
       (case at (originalIndices data) startIndex of None \<Rightarrow> 0 | Some a \<Rightarrow> a)
       (case at (originalIndices data) endIndex of None \<Rightarrow> 0 | Some b \<Rightarrow> b + 1)"

text \<open>
  Lines 23 to 30: the first loop records, for each letter of the target in order, the
  earliest position of the slice not yet passed where it occurs. The result is the filled
  prefix of \<^verbatim>\<open>matchPositions\<close>; its length is the final \<^verbatim>\<open>matchIndex\<close>.
\<close>

fun matchPositionsFrom :: "nat \<Rightarrow> 'a list \<Rightarrow> 'a list \<Rightarrow> nat list" where
  "matchPositionsFrom i [] ts = []"
| "matchPositionsFrom i (c # cs) [] = []"
| "matchPositionsFrom i (c # cs) (t # ts) =
     (if c = t then i # matchPositionsFrom (Suc i) cs ts
      else matchPositionsFrom (Suc i) cs (t # ts))"

subsection \<open>The scoring loops\<close>

type_synonym dpItem = "int \<times> int \<times> int \<times> int"
type_synonym pathCell = "int \<times> int \<times> int"

definition defaultDpTableValue :: dpItem where
  "defaultDpTableValue = (0, 0, -1, -1)"

text \<open>The values fixed during one call.\<close>

record matcher =
  sliceString :: jsString
  sliceBoundary :: "(int \<times> int) list"
  word :: jsString
  startBoundary :: int
  endBoundary :: int

text \<open>The three arrays and the two variables carried from one position to the next.\<close>

record dpState =
  dpTable :: "dpItem list"
  dpScores :: "int list"
  dpMatchPath :: "pathCell option list list"
  currentDpTableItem :: dpItem
  currentScore :: int

definition isNewWord :: "matcher \<Rightarrow> nat \<Rightarrow> int \<times> int \<Rightarrow> dpItem \<Rightarrow> bool" where
  "isNewWord m matchedPinyinIndex b prev \<longleftrightarrow>
     (case prev of (prevMatchedStrings, prevMatchedLetters, prevBoundaryStart, prevBoundaryEnd) \<Rightarrow>
        int matchedPinyinIndex - 1 = snd b - endBoundary m
        \<and> prevBoundaryStart \<noteq> fst b - startBoundary m)"

definition isContinuation :: "matcher \<Rightarrow> nat \<Rightarrow> nat \<Rightarrow> int \<times> int \<Rightarrow> dpItem \<Rightarrow> bool" where
  "isContinuation m matchIndex matchedPinyinIndex b prev \<longleftrightarrow>
     (case prev of (prevMatchedStrings, prevMatchedLetters, prevBoundaryStart, prevBoundaryEnd) \<Rightarrow>
        prevMatchedStrings > 0
        \<and> prevBoundaryEnd = snd b - endBoundary m
        \<and> at (sliceString m) (int matchedPinyinIndex - 2) = at (word m) (int matchIndex - 1))"

definition isEqual :: "matcher \<Rightarrow> nat \<Rightarrow> nat \<Rightarrow> bool" where
  "isEqual m matchIndex matchedPinyinIndex \<longleftrightarrow>
     at (sliceString m) (int matchedPinyinIndex - 1) = at (word m) (int matchIndex)"

text \<open>
  Line 87: the test that lets the position extend the match. \<open>prev\<close> and \<open>prevScore\<close>
  are the cached table item and score of the previous position.
\<close>

definition eligible :: "matcher \<Rightarrow> nat \<Rightarrow> nat \<Rightarrow> int \<times> int \<Rightarrow> dpItem \<Rightarrow> int \<Rightarrow> bool" where
  "eligible m matchIndex matchedPinyinIndex b prev prevScore \<longleftrightarrow>
     isEqual m matchIndex matchedPinyinIndex
     \<and> (isNewWord m matchedPinyinIndex b prev \<or> isContinuation m matchIndex matchedPinyinIndex b prev)
     \<and> (matchIndex = 0 \<or> prevScore > 0)"

text \<open>Line 88: the score after the extension.\<close>

definition extendedScore :: "dpItem \<Rightarrow> int \<Rightarrow> int" where
  "extendedScore prev prevScore =
     (case prev of (prevMatchedStrings, prevMatchedLetters, prevBoundaryStart, prevBoundaryEnd) \<Rightarrow>
        prevScore + (prevMatchedLetters * 2 + 1))"

text \<open>
  Lines 93 to 110: the extension is recorded. \<^verbatim>\<open>~~isNewWord\<close> is 1 or 0, and
  \<^verbatim>\<open>a - b + ~~!isNewWord\<close> is \<^verbatim>\<open>(a - b) + ~~!isNewWord\<close>.
\<close>

definition recordExtension :: "matcher \<Rightarrow> nat \<Rightarrow> nat \<Rightarrow> int \<times> int \<Rightarrow> dpItem \<Rightarrow> int \<Rightarrow> dpState \<Rightarrow> dpState" where
  "recordExtension m matchIndex matchedPinyinIndex b prev prevScore st =
     (case prev of (prevMatchedStrings, prevMatchedLetters, prevBoundaryStart, prevBoundaryEnd) \<Rightarrow>
        let newWord = isNewWord m matchedPinyinIndex b prev;
            matchedLettersCount = prevMatchedLetters + 1;
            originalStringIndex = fst b - startBoundary m;
            newMatched = prevScore > dpScores st ! (matchedPinyinIndex - 1)
        in st\<lparr>dpScores := (dpScores st)[matchedPinyinIndex := prevScore],
               dpTable := (dpTable st)[matchedPinyinIndex :=
                 (prevMatchedStrings + (if newWord then 1 else 0), matchedLettersCount,
                  fst b - startBoundary m, snd b - endBoundary m)],
               dpMatchPath := (dpMatchPath st)[matchedPinyinIndex :=
                 (dpMatchPath st ! matchedPinyinIndex)[matchIndex :=
                   (if newMatched
                    then Some (originalStringIndex - prevMatchedStrings + (if newWord then 0 else 1),
                               originalStringIndex, matchedLettersCount)
                    else dpMatchPath st ! (matchedPinyinIndex - 1) ! matchIndex)]]\<rparr>)"

text \<open>
  Lines 114 to 125: nothing is recorded at this position; score and path cell are copied
  from the previous position, and the table item is copied or reset. \<^verbatim>\<open>isSameWord()\<close>
  reads the next boundary entry, and only when the two tests before it hold.
\<close>

definition carryForward :: "matcher \<Rightarrow> nat \<Rightarrow> nat \<Rightarrow> int \<times> int \<Rightarrow> dpState \<Rightarrow> error + dpState" where
  "carryForward m matchIndex matchedPinyinIndex b st =
     (let st1 = st\<lparr>dpScores := (dpScores st)[matchedPinyinIndex := dpScores st ! (matchedPinyinIndex - 1)],
                   dpMatchPath := (dpMatchPath st)[matchedPinyinIndex :=
                     (dpMatchPath st ! matchedPinyinIndex)[matchIndex :=
                        dpMatchPath st ! (matchedPinyinIndex - 1) ! matchIndex]]\<rparr>;
          previous = dpTable st ! (matchedPinyinIndex - 1);
          gap = fst b - startBoundary m - fst (snd (snd previous));
          isWithInRange = (int matchedPinyinIndex < int (length (sliceString m)) - 1)
      in if gap = 0 then Inr (st1\<lparr>dpTable := (dpTable st)[matchedPinyinIndex := previous]\<rparr>)
         else if isWithInRange \<and> gap = 1 then
           (case at (sliceBoundary m) (int matchedPinyinIndex + 1) of
              None \<Rightarrow> Inl TypeError
            | Some next \<Rightarrow>
                Inr (st1\<lparr>dpTable := (dpTable st)[matchedPinyinIndex :=
                       (if fst b = fst next then previous else defaultDpTableValue)]\<rparr>))
         else Inr (st1\<lparr>dpTable := (dpTable st)[matchedPinyinIndex := defaultDpTableValue]\<rparr>))"

text \<open>
  Lines 60 to 126, the body of the inner loop at one position. Reading
  \<^verbatim>\<open>boundary[matchedPinyinIndex][1]\<close> throws when the entry is absent.
\<close>

definition innerBody :: "matcher \<Rightarrow> nat \<Rightarrow> nat \<Rightarrow> dpState \<Rightarrow> error + dpState" where
  "innerBody m matchIndex matchedPinyinIndex st =
     (let prevScore = currentScore st;
          prev = currentDpTableItem st;
          st1 = st\<lparr>currentDpTableItem := dpTable st ! matchedPinyinIndex,
                   currentScore := dpScores st ! matchedPinyinIndex\<rparr>
      in case at (sliceBoundary m) (int matchedPinyinIndex) of
           None \<Rightarrow> Inl TypeError
         | Some b \<Rightarrow>
             if eligible m matchIndex matchedPinyinIndex b prev prevScore
             then (if extendedScore prev prevScore \<ge> dpScores st1 ! (matchedPinyinIndex - 1)
                   then Inr (recordExtension m matchIndex matchedPinyinIndex b prev
                               (extendedScore prev prevScore) st1)
                   else carryForward m matchIndex matchedPinyinIndex b st1)
             else carryForward m matchIndex matchedPinyinIndex b st1)"

text \<open>A \<^verbatim>\<open>for\<close> loop over consecutive indices that stops at the first exception.\<close>

fun forEach :: "(nat \<Rightarrow> 's \<Rightarrow> error + 's) \<Rightarrow> nat list \<Rightarrow> 's \<Rightarrow> error + 's" where
  "forEach body [] st = Inr st"
| "forEach body (i # is) st =
     (case body i st of Inl e \<Rightarrow> Inl e | Inr st' \<Rightarrow> forEach body is st')"

text \<open>Lines 44 to 127: one round of the outer loop, for the letter \<open>matchIndex\<close>.\<close>

definition outerBody :: "matcher \<Rightarrow> nat list \<Rightarrow> nat \<Rightarrow> dpState \<Rightarrow> error + dpState" where
  "outerBody m matchPositions matchIndex st =
     (let matchedPinyinIndex = matchPositions ! matchIndex + 1;
          st1 = st\<lparr>currentDpTableItem := dpTable st ! (matchedPinyinIndex - 1),
                   currentScore := dpScores st ! (matchedPinyinIndex - 1),
                   dpScores := (dpScores st)[matchedPinyinIndex - 1 := 0],
                   dpTable := (dpTable st)[matchedPinyinIndex - 1 := defaultDpTableValue]\<rparr>
      in forEach (innerBody m matchIndex) [matchedPinyinIndex ..< Suc (length (sliceString m))] st1)"

definition initialState :: "nat \<Rightarrow> nat \<Rightarrow> dpState" where
  "initialState pinyinLength targetLength =
     \<lparr>dpTable = replicate (pinyinLength + 1) defaultDpTableValue,
      dpScores = replicate (pinyinLength + 1) 0,
      dpMatchPath = replicate (pinyinLength + 1) (replicate targetLength None),
      currentDpTableItem = defaultDpTableValue,
      currentScore = 0\<rparr>"

definition scoringLoops :: "matcher \<Rightarrow> nat list \<Rightarrow> error + dpState" where
  "scoringLoops m matchPositions =
     forEach (outerBody m matchPositions) [0 ..< length matchPositions]
       (initialState (length (sliceString m)) (length (word m)))"

subsection \<open>Backtracking and the whole function\<close>

text \<open>
  Lines 132 to 136. The loop has no bound of its own: it goes on while \<open>i \<ge> 0\<close> and
  steps back by the third component of the cell. Destructuring an absent cell throws.
\<close>

partial_function (option) backtrack :: "pathCell option list \<Rightarrow> int \<Rightarrow> int \<Rightarrow> Matrix \<Rightarrow> (error + Matrix) option" where
  "backtrack row startIndex i hitIndices =
     (if i \<ge> 0 then
        (case at row i of
           Some (Some (rangeStart, rangeEnd, matchedLetters)) \<Rightarrow>
             backtrack row startIndex (i - matchedLetters)
               ((rangeStart + startIndex, rangeEnd + startIndex) # hitIndices)
         | _ \<Rightarrow> Some (Inl TypeError))
      else Some (Inr hitIndices))"

declare backtrack.simps [code]

definition searchByBoundaryMapping :: "SourceMappingData \<Rightarrow> jsString \<Rightarrow> int \<Rightarrow> int \<Rightarrow> Matrix option outcome" where
  "searchByBoundaryMapping data target startIndex endIndex =
     (let pinyin = pinyinSlice data startIndex endIndex;
          bound = boundarySlice data startIndex endIndex;
          targetLength = length target;
          pinyinLength = length pinyin
      in if target = [] \<or> pinyinLength < targetLength \<or> originalLength data = 0 then Some (Inr None)
         else case at bound 1 of
           None \<Rightarrow> Some (Inl TypeError)
         | Some b1 \<Rightarrow>
             let m = \<lparr>sliceString = pinyin, sliceBoundary = bound, word = target,
                      startBoundary = fst b1, endBoundary = snd b1\<rparr>;
                 matchPositions = matchPositionsFrom 0 pinyin target
             in if length matchPositions < targetLength then Some (Inr None)
                else (case scoringLoops m matchPositions of
                        Inl e \<Rightarrow> Some (Inl e)
                      | Inr st \<Rightarrow>
                          if dpMatchPath st ! pinyinLength ! (targetLength - 1) = None
                          then Some (Inr None)
                          else map_option (map_sum id Some)
                                 (backtrack (dpMatchPath st ! pinyinLength) startIndex
                                    (int targetLength - 1) [])))"

section \<open>searchSentenceByBoundaryMapping and searchEntry\<close>

text \<open>
  \<^verbatim>\<open>getRestRanges\<close> is imported from \<^verbatim>\<open>utils.ts\<close>; the functions below take it as
  the parameter \<open>getRestRanges\<close>. Lines 152 to 159: the ranges are tried from left to
  right until the word is placed in one.
\<close>

fun tryRanges :: "SourceMappingData \<Rightarrow> jsString \<Rightarrow> Matrix \<Rightarrow> Matrix option outcome" where
  "tryRanges data w [] = Some (Inr None)"
| "tryRanges data w (r # restRanges) =
     (case searchByBoundaryMapping data w (fst r) (snd r) of
        None \<Rightarrow> None
      | Some (Inl e) \<Rightarrow> Some (Inl e)
      | Some (Inr None) \<Rightarrow> tryRanges data w restRanges
      | Some (Inr (Some hitRangesByWord)) \<Rightarrow> Some (Inr (Some hitRangesByWord)))"

text \<open>Lines 148 to 163: the loop over the words, \<open>hitRanges\<close> being what is claimed so far.\<close>

fun placeWords :: "(int \<Rightarrow> Matrix \<Rightarrow> Matrix) \<Rightarrow> SourceMappingData \<Rightarrow> jsString list \<Rightarrow> Matrix \<Rightarrow> Matrix option outcome" where
  "placeWords getRestRanges data [] hitRanges = Some (Inr (Some hitRanges))"
| "placeWords getRestRanges data (w # words) hitRanges =
     (let restRanges = getRestRanges (originalLength data) hitRanges
      in if restRanges = [] then Some (Inr None)
         else case tryRanges data w restRanges of
           None \<Rightarrow> None
         | Some (Inl e) \<Rightarrow> Some (Inl e)
         | Some (Inr None) \<Rightarrow> Some (Inr None)
         | Some (Inr (Some hitRangesByWord)) \<Rightarrow>
             placeWords getRestRanges data words (hitRanges @ hitRangesByWord))"

definition searchSentenceByBoundaryMapping :: "(int \<Rightarrow> Matrix \<Rightarrow> Matrix) \<Rightarrow> SourceMappingData \<Rightarrow> jsString \<Rightarrow> Matrix option outcome" where
  "searchSentenceByBoundaryMapping getRestRanges boundaryMapping sentence =
     (if sentence = [] then Some (Inr None)
      else case searchWithIndexof (originalString boundaryMapping) sentence of
        Some hitRangesByIndexOf \<Rightarrow> Some (Inr (Some hitRangesByIndexOf))
      | None \<Rightarrow> placeWords getRestRanges boundaryMapping (splitWhiteSpace (trim sentence)) [])"

definition searchEntry :: "(int \<Rightarrow> Matrix \<Rightarrow> Matrix) \<Rightarrow> jsString \<Rightarrow> jsString \<Rightarrow> (jsString \<Rightarrow> SourceMappingData) \<Rightarrow> Matrix option outcome" where
  "searchEntry getRestRanges source target getBoundaryMapping =
     (case searchWithIndexof source target of
        Some hitRanges \<Rightarrow> Some (Inr (Some hitRanges))
      | None \<Rightarrow> searchSentenceByBoundaryMapping getRestRanges (getBoundaryMapping source) target)"

section \<open>Auxiliary notions for the statements\<close>

text \<open>\<open>w\<close> occurs in \<open>source\<close> at index \<open>i\<close>.\<close>

definition occursAt :: "'a list \<Rightarrow> 'a list \<Rightarrow> nat \<Rightarrow> bool" where
  "occursAt source w i \<longleftrightarrow> i + length w \<le> length source \<and> take (length w) (drop i source) = w"

text \<open>
  Modelled from the spec: the boundary map of a source under the identity transliteration,
  built by \<^verbatim>\<open>extractBoundaryMappingWithPresetPinyin\<close> of \<^verbatim>\<open>boundary.ts\<close>, which is
  not part of the sources at hand. Every character is its own one-letter reading, so the
  transliteration is the source, \<open>originalIndices\<close> maps the character \<open>i\<close> to the offset
  \<open>i\<close>, and \<open>boundary\<close> holds a sentinel followed, for the letter \<open>i\<close>, by the range
  \<open>[i, i + 1)\<close> of its character.
\<close>

definition identityMapping :: "jsString \<Rightarrow> SourceMappingData" where
  "identityMapping s =
     \<lparr>pinyinString = s,
      boundary = (-1, -1) # map (\<lambda>i. (int i, int i + 1)) [0 ..< length s],
      originalIndices = map int [0 ..< Suc (length s)],
      originalString = s,
      originalLength = int (length s)\<rparr>"

text \<open>
  Modelled from the spec: \<^verbatim>\<open>getRestRanges\<close> of \<^verbatim>\<open>utils.ts\<close> (the RangeUtility of
  sections 2 and 6), which is not part of the sources at hand: the ranges of the indices of
  \<open>[0, totalLength)\<close> that no claimed range covers, maximal, disjoint and sorted from
  left to right. It is the instance of the parameter \<open>getRestRanges\<close> in the concrete
  examples.
\<close>

definition freeIndex :: "Matrix \<Rightarrow> int \<Rightarrow> bool" where
  "freeIndex claimed i \<longleftrightarrow> (\<forall>h \<in> set claimed. i < fst h \<or> snd h < i)"

fun restRuns :: "(int \<Rightarrow> bool) \<Rightarrow> int list \<Rightarrow> Matrix" where
  "restRuns free [] = []"
| "restRuns free (i # is) =
     (if free i then
        (case restRuns free is of
           [] \<Rightarrow> [(i, i)]
         | (s, e) # rs \<Rightarrow> if s = i + 1 then (i, e) # rs else (i, i) # (s, e) # rs)
      else restRuns free is)"

definition complementRanges :: "int \<Rightarrow> Matrix \<Rightarrow> Matrix" where
  "complementRanges totalLength claimed = restRuns (freeIndex claimed) [0 .. totalLength - 1]"

text \<open>
  What the statements below assume of the parameter \<open>getRestRanges\<close>: the two ends of a
  range it returns are indices of \<open>originalIndices\<close>, and no index from the start of the
  range up to, and not including, its end lies in a claimed range. A function that meets
  the description of section 6 of the spec, with inclusive ranges, meets this.
\<close>

definition restRangesContract :: "(int \<Rightarrow> Matrix \<Rightarrow> Matrix) \<Rightarrow> bool" where
  "restRangesContract getRestRanges \<longleftrightarrow>
     (\<forall>totalLength claimed. \<forall>r \<in> set (getRestRanges totalLength claimed).
        0 \<le> fst r \<and> fst r \<le> snd r \<and> snd r \<le> totalLength
        \<and> (\<forall>h \<in> set claimed. {fst r ..< snd r} \<inter> {fst h .. snd h} = {}))"

text \<open>
  The invariants of section 3 of the spec that the proofs use. The table
  \<open>originalIndices\<close> has one entry per character and a last one, is non-decreasing and
  holds offsets into \<open>pinyinString\<close>; \<open>boundary\<close> has one entry per letter after its
  sentinel and is non-decreasing in the character it names; and every letter lies between
  the offset of the character its boundary entry names and the offset of the next one.
\<close>

definition wellFormed :: "SourceMappingData \<Rightarrow> bool" where
  "wellFormed data \<longleftrightarrow>
     0 \<le> originalLength data
     \<and> length (originalIndices data) = nat (originalLength data) + 1
     \<and> length (boundary data) = length (pinyinString data) + 1
     \<and> sorted (originalIndices data)
     \<and> sorted (map fst (boundary data))
     \<and> (\<forall>a \<in> set (originalIndices data). 0 \<le> a \<and> a \<le> int (length (pinyinString data)))
     \<and> (\<forall>p \<in> set [0 ..< length (pinyinString data)].
          0 \<le> fst (boundary data ! Suc p) \<and> fst (boundary data ! Suc p) < originalLength data
          \<and> originalIndices data ! nat (fst (boundary data ! Suc p)) \<le> int p
          \<and> int p < originalIndices data ! Suc (nat (fst (boundary data ! Suc p))))"

text \<open>The index sets of two inclusive ranges do not meet.\<close>

definition disjointRanges :: "int \<times> int \<Rightarrow> int \<times> int \<Rightarrow> bool" where
  "disjointRanges r h \<longleftrightarrow> {fst r .. snd r} \<inter> {fst h .. snd h} = {}"

subsection \<open>Invariants of the scoring loops\<close>

text \<open>
  The character of the position \<open>i\<close> of the slice, counted from the first character of
  the slice; position 0 is before the slice.
\<close>

definition relChar :: "matcher \<Rightarrow> nat \<Rightarrow> int" where
  "relChar m i = (if i = 0 then -1 else fst (sliceBoundary m ! i) - startBoundary m)"

text \<open>What the scoring loops need of the slices: \<open>boundary\<close> has one entry more than the
  transliteration, and the characters it names do not decrease.\<close>

definition alignedSlices :: "matcher \<Rightarrow> bool" where
  "alignedSlices m \<longleftrightarrow>
     length (sliceBoundary m) = length (sliceString m) + 1
     \<and> startBoundary m = fst (sliceBoundary m ! 1)
     \<and> (\<forall>i j. 1 \<le> i \<and> i \<le> j \<and> j \<le> length (sliceString m)
            \<longrightarrow> fst (sliceBoundary m ! i) \<le> fst (sliceBoundary m ! j))"

text \<open>
  Backtracking from the letter \<open>i\<close> in a row of path cells meets only cells that are
  present, that step back by at least one letter, and whose range lies in \<open>[0, hi]\<close>; it
  ends just before the first letter.
\<close>

inductive chain :: "int \<Rightarrow> pathCell option list \<Rightarrow> int \<Rightarrow> bool" for hi row where
  chain_done: "chain hi row (-1)"
| chain_step: "0 \<le> i \<Longrightarrow> at row i = Some (Some (s, e, n)) \<Longrightarrow> 1 \<le> n \<Longrightarrow> 0 \<le> s \<Longrightarrow> s \<le> e
     \<Longrightarrow> e \<le> hi \<Longrightarrow> chain hi row (i - n) \<Longrightarrow> chain hi row i"

text \<open>
  A table item at the position \<open>i\<close>, written when \<open>n\<close> letters of the target had been
  looked at: its counts are not negative, it has matched no more characters than there are
  up to the one it names, which is not after the position, and the letters before its run
  can be backtracked.
\<close>

definition itemOK :: "matcher \<Rightarrow> pathCell option list \<Rightarrow> nat \<Rightarrow> nat \<Rightarrow> dpItem \<Rightarrow> bool" where
  "itemOK m row n i item \<longleftrightarrow>
     (case item of (matchedStrings, matchedLetters, boundaryStart, boundaryEnd) \<Rightarrow>
        0 \<le> matchedStrings \<and> 0 \<le> matchedLetters \<and> matchedStrings \<le> boundaryStart + 1
        \<and> boundaryStart \<le> relChar m i
        \<and> (0 < matchedLetters \<longrightarrow>
              chain (relChar m (length (sliceString m))) row (int n - 1 - matchedLetters)))"

text \<open>A score left by the round of the letter \<open>n - 1\<close>: when positive, that round has
  filled its cell of the last row.\<close>

definition scoreOK :: "pathCell option list \<Rightarrow> nat \<Rightarrow> int \<Rightarrow> bool" where
  "scoreOK row n s \<longleftrightarrow> 0 \<le> s \<and> (0 < s \<longrightarrow> 1 \<le> n \<and> (\<exists>c. at row (int n - 1) = Some (Some c)))"

text \<open>A path cell of the letter \<open>k\<close>.\<close>

definition cellOK :: "matcher \<Rightarrow> pathCell option list \<Rightarrow> nat \<Rightarrow> pathCell option \<Rightarrow> bool" where
  "cellOK m row k cell \<longleftrightarrow>
     (case cell of
        None \<Rightarrow> True
      | Some (s, e, n) \<Rightarrow>
          1 \<le> n \<and> 0 \<le> s \<and> s \<le> e \<and> e \<le> relChar m (length (sliceString m))
          \<and> chain (relChar m (length (sliceString m))) row (int k - n))"

text \<open>Every cell of the last row that an earlier round has filled can be backtracked.\<close>

definition settled :: "matcher \<Rightarrow> pathCell option list \<Rightarrow> bool" where
  "settled m row \<longleftrightarrow>
     (\<forall>i < length row. row ! i \<noteq> None \<longrightarrow> chain (relChar m (length (sliceString m))) row (int i))"

definition arraysOK :: "matcher \<Rightarrow> dpState \<Rightarrow> bool" where
  "arraysOK m st \<longleftrightarrow>
     length (dpTable st) = length (sliceString m) + 1
     \<and> length (dpScores st) = length (sliceString m) + 1
     \<and> length (dpMatchPath st) = length (sliceString m) + 1
     \<and> (\<forall>i \<le> length (sliceString m). length (dpMatchPath st ! i) = length (word m))"

text \<open>No round has yet written the path cells of the letters from \<open>k\<close> on.\<close>

definition untouched :: "matcher \<Rightarrow> nat \<Rightarrow> dpState \<Rightarrow> bool" where
  "untouched m k st \<longleftrightarrow>
     (\<forall>i k'. i \<le> length (sliceString m) \<and> k \<le> k' \<and> k' < length (word m)
        \<longrightarrow> dpMatchPath st ! i ! k' = None)"

text \<open>
  Between two rounds of the outer loop, \<open>k\<close> letters done: from the position \<open>lo\<close> on,
  the table and the scores are the ones the last round wrote.
\<close>

definition outerInv :: "matcher \<Rightarrow> nat \<Rightarrow> nat \<Rightarrow> dpState \<Rightarrow> bool" where
  "outerInv m k lo st \<longleftrightarrow>
     arraysOK m st \<and> untouched m k st
     \<and> settled m (take k (dpMatchPath st ! length (sliceString m)))
     \<and> (\<forall>i. lo \<le> i \<and> i \<le> length (sliceString m) \<longrightarrow>
           itemOK m (take k (dpMatchPath st ! length (sliceString m))) k i (dpTable st ! i)
           \<and> scoreOK (take k (dpMatchPath st ! length (sliceString m))) k (dpScores st ! i))"

text \<open>
  Inside the round of the letter \<open>k\<close>, before the position \<open>j\<close>: the positions from
  \<open>lo\<close> to \<open>j - 1\<close> hold what this round wrote, the positions from \<open>j\<close> on and the two
  cached variables what the round before wrote.
\<close>

definition innerInv :: "matcher \<Rightarrow> nat \<Rightarrow> nat \<Rightarrow> nat \<Rightarrow> dpState \<Rightarrow> bool" where
  "innerInv m k lo j st \<longleftrightarrow>
     arraysOK m st \<and> untouched m (Suc k) st
     \<and> settled m (take k (dpMatchPath st ! length (sliceString m)))
     \<and> (\<forall>i. lo \<le> i \<and> i < j \<longrightarrow>
           itemOK m (take k (dpMatchPath st ! length (sliceString m))) (Suc k) i (dpTable st ! i)
           \<and> 0 \<le> dpScores st ! i
           \<and> (0 < dpScores st ! i \<longrightarrow> dpMatchPath st ! (j - 1) ! k \<noteq> None))
     \<and> cellOK m (take k (dpMatchPath st ! length (sliceString m))) k (dpMatchPath st ! (j - 1) ! k)
     \<and> (\<forall>i. j \<le> i \<and> i \<le> length (sliceString m) \<longrightarrow>
           itemOK m (take k (dpMatchPath st ! length (sliceString m))) k i (dpTable st ! i)
           \<and> scoreOK (take k (dpMatchPath st ! length (sliceString m))) k (dpScores st ! i))
     \<and> itemOK m (take k (dpMatchPath st ! length (sliceString m))) k (j - 1) (currentDpTableItem st)
     \<and> scoreOK (take k (dpMatchPath st ! length (sliceString m))) k (currentScore st)"

text \<open>
  The three arrays of \<open>st'\<close> have the lengths of those of \<open>st\<close>, row by row for the
  path table.
\<close>

definition sameShape :: "dpState \<Rightarrow> dpState \<Rightarrow> bool" where
  "sameShape st st' \<longleftrightarrow>
     length (dpTable st') = length (dpTable st) \<and> length (dpScores st') = length (dpScores st)
     \<and> map length (dpMatchPath st') = map length (dpMatchPath st)"

subsection \<open>Placement of the words of a sentence\<close>

text \<open>
  \<open>perWord\<close> lists, for each word in order, the ranges
  \<open>searchSentenceByBoundaryMapping\<close> assigned to it: the result of
  \<open>searchByBoundaryMapping\<close> for the word in one of the ranges that
  \<open>getRestRanges\<close> gives for what the words before it have claimed.
\<close>

definition placedBy :: "(int \<Rightarrow> Matrix \<Rightarrow> Matrix) \<Rightarrow> SourceMappingData \<Rightarrow> jsString list \<Rightarrow> Matrix \<Rightarrow> Matrix list \<Rightarrow> bool" where
  "placedBy getRestRanges data ws claimed perWord \<longleftrightarrow>
     length perWord = length ws
     \<and> (\<forall>i < length ws.
          \<exists>r \<in> set (getRestRanges (originalLength data) (claimed @ concat (take i perWord))).
            searchByBoundaryMapping data (ws ! i) (fst r) (snd r) = Some (Inr (Some (perWord ! i))))"

subsection \<open>A source with a character of two readings\<close>

text \<open>
  Five characters; the transliteration is \<open>c\<close>, \<open>aa\<close>, \<open>c\<close>, \<open>a\<close> for the first
  four and, for the last one, the two readings \<open>b\<close> and \<open>ccc\<close>. The second component of
  a boundary entry is the offset at which the reading of the letter starts, which is how
  \<^verbatim>\<open>isNewWord\<close> and \<^verbatim>\<open>isContinuation\<close> tell the first letter of a reading and the
  letters of one reading.
\<close>

definition twoReadings :: SourceMappingData where
  "twoReadings =
     \<lparr>pinyinString = js ''caacabccc'',
      boundary = [(-1, -1), (0, 0), (1, 1), (1, 1), (2, 3), (3, 4), (4, 5), (4, 6), (4, 6), (4, 6)],
      originalIndices = [0, 1, 3, 4, 5, 9],
      originalString = js ''_____'',
      originalLength = 5\<rparr>"

text \<open>
  The values fixed in the call for \<open>twoReadings\<close>, the word \<open>ccb\<close> and the whole
  source, and the state in which the scoring loops end there.
\<close>

definition twoReadingsMatcher :: matcher where
  "twoReadingsMatcher =
     \<lparr>sliceString = js ''caacabccc'', sliceBoundary = boundary twoReadings,
      word = js ''ccb'', startBoundary = 0, endBoundary = 0\<rparr>"

definition twoReadingsFinal :: dpState where
  "twoReadingsFinal =
     \<lparr>dpTable = [(0, 0, -1, -1), (1, 1, 0, 0), (1, 1, 0, 0), (0, 0, -1, -1), (1, 1, 2, 3),
                 (0, 0, -1, -1), (1, 1, 4, 5), (1, 1, 4, 5), (1, 1, 4, 5), (1, 1, 4, 5)],
      dpScores = [0, 1, 1, 0, 2, 0, 3, 3, 3, 3],
      dpMatchPath =
        [[None, None, None], [Some (0, 0, 1), None, None],
         [Some (0, 0, 1), None, None], [Some (0, 0, 1), None, None],
         [Some (0, 0, 1), Some (2, 2, 1), None],
         [Some (0, 0, 1), Some (2, 2, 1), None],
         [Some (0, 0, 1), Some (2, 2, 1), Some (4, 4, 1)],
         [Some (0, 0, 1), Some (2, 2, 1), Some (4, 4, 1)],
         [Some (0, 0, 1), Some (4, 4, 2), Some (4, 4, 1)],
         [Some (0, 0, 1), Some (4, 4, 2), Some (4, 4, 1)]],
      currentDpTableItem = (1, 2, 4, 6), currentScore = 4\<rparr>"

subsection \<open>A step of the scoring loops on \<open>no_node\<close>\<close>

text \<open>
  The values fixed in the call for the source \<open>no_node\<close> and the word \<open>nod\<close>, and a state
  before the step of the second letter at the second position: the arrays are as they are
  initialised, and the cached item and score are those of the first letter matched at the
  first position, with score 1.
\<close>

definition exampleMatcher :: matcher where
  "exampleMatcher =
     \<lparr>sliceString = js ''no_node'',
      sliceBoundary = boundary (identityMapping (js ''no_node'')),
      word = js ''nod'', startBoundary = 0, endBoundary = 1\<rparr>"

definition exampleState :: dpState where
  "exampleState = (initialState 7 3)\<lparr>currentDpTableItem := (1, 1, 0, 0), currentScore := 1\<rparr>"

text \<open>The state after the step at the second position: the extension \<open>no\<close> is recorded.\<close>

definition exampleNext :: dpState where
  "exampleNext =
     \<lparr>dpTable = (replicate 8 defaultDpTableValue)[2 := (2, 2, 1, 1)],
      dpScores = (replicate 8 0)[2 := 4],
      dpMatchPath = (replicate 8 (replicate 3 None))[2 := (replicate 3 None)[1 := Some (0, 1, 2)]],
      currentDpTableItem = defaultDpTableValue,
      currentScore = 0\<rparr>"

section \<open>The literal fast path\<close>

lemma occursAt_0: "occursAt source w 0 \<longleftrightarrow> prefix w source"
  unfolding occursAt_def prefix_def
  by auto (metis append_take_drop_id)

lemma occursAt_Suc: "occursAt (c # cs) w (Suc i) \<longleftrightarrow> occursAt cs w i"
  by (simp add: occursAt_def)

lemma indexOfFrom_least:
  assumes "occursAt source w j" "0 \<le> i"
  shows "\<exists>l \<le> j. indexOfFrom i source w = i + int l \<and> occursAt source w l
           \<and> (\<forall>l' < l. \<not> occursAt source w l')"
  using assms
proof (induction source arbitrary: i j)
  case Nil
  then show ?case by (auto simp: occursAt_def)
next
  case (Cons c cs)
  show ?case
  proof (cases "prefix w (c # cs)")
    case True
    then show ?thesis by (auto simp: occursAt_0 intro!: exI [of _ 0])
  next
    case False
    then obtain j' where j': "j = Suc j'"
      using Cons.prems(1) by (cases j) (auto simp: occursAt_0)
    then have "occursAt cs w j'" using Cons.prems(1) by (simp add: occursAt_Suc)
    from Cons.IH [OF this, of "i + 1"] Cons.prems(2)
    obtain l where l: "l \<le> j'" "indexOfFrom (i + 1) cs w = i + 1 + int l" "occursAt cs w l"
      "\<forall>l' < l. \<not> occursAt cs w l'" by auto
    have "\<forall>l' < Suc l. \<not> occursAt (c # cs) w l'"
    proof (intro allI impI)
      fix l' assume "l' < Suc l"
      then show "\<not> occursAt (c # cs) w l'"
        using l(4) False by (cases l') (auto simp: occursAt_0 occursAt_Suc)
    qed
    then show ?thesis
      using l False j' by (intro exI [of _ "Suc l"]) (auto simp: occursAt_Suc)
  qed
qed

lemma sublist_occursAt: "sublist w source \<Longrightarrow> \<exists>j. occursAt source w j"
proof -
  assume "sublist w source"
  then obtain ps ss where "source = ps @ w @ ss" by (auto simp: sublist_def)
  then have "occursAt source w (length ps)" by (simp add: occursAt_def)
  then show "\<exists>j. occursAt source w j" ..
qed

lemma trim_id:
  assumes "w \<noteq> []" "\<not> isWhiteSpace (hd w)" "\<not> isWhiteSpace (last w)"
  shows "trim w = w"
proof -
  have 1: "dropWhile isWhiteSpace w = w" using assms by (cases w) auto
  have "rev w \<noteq> []" "\<not> isWhiteSpace (hd (rev w))" using assms by (auto simp: hd_rev)
  then have "dropWhile isWhiteSpace (rev w) = rev w" by (cases "rev w") auto
  with 1 show ?thesis by (simp add: trim_def)
qed

text \<open>
  Claim C1, as amended. For every source \<open>S\<close>, every boundary-map provider, and every
  non-empty contiguous substring \<open>W\<close> of \<open>S\<close> that neither starts nor ends with white
  space, \<open>searchEntry\<close> returns a matrix of exactly one range, \<open>[i, i + length W - 1]\<close>,
  where \<open>i\<close> is the least index at which \<open>W\<close> occurs in \<open>S\<close>.
\<close>

theorem literal_substring_leftmost:
  assumes "sublist w source" and "w \<noteq> []"
    and "\<not> isWhiteSpace (hd w)" and "\<not> isWhiteSpace (last w)"
  shows "\<exists>i. searchEntry getRestRanges source w getBoundaryMapping
                = Some (Inr (Some [(int i, int i + int (length w) - 1)]))
              \<and> occursAt source w i \<and> (\<forall>j < i. \<not> occursAt source w j)"
proof -
  from assms(1) obtain j where "occursAt source w j" by (auto dest: sublist_occursAt)
  from indexOfFrom_least [OF this, of 0]
  obtain l where l: "indexOf source w = int l" "occursAt source w l" "\<forall>l' < l. \<not> occursAt source w l'"
    by (auto simp: indexOf_def)
  have "trim w = w" using assms(2-4) by (rule trim_id)
  then have "searchWithIndexof source w = Some [(int l, int l + int (length w) - 1)]"
    using l(1) by (simp add: searchWithIndexof_def Let_def)
  then show ?thesis using l(2,3) by (auto simp: searchEntry_def)
qed

theorem literal_substring_leftmost_witness:
  "sublist (js ''nod'') (js ''no_node'') \<and> js ''nod'' \<noteq> []
   \<and> \<not> isWhiteSpace (hd (js ''nod'')) \<and> \<not> isWhiteSpace (last (js ''nod''))
   \<and> (\<exists>i. searchEntry complementRanges (js ''no_node'') (js ''nod'') identityMapping
                = Some (Inr (Some [(int i, int i + int (length (js ''nod'')) - 1)]))
              \<and> occursAt (js ''no_node'') (js ''nod'') i
              \<and> (\<forall>j < i. \<not> occursAt (js ''no_node'') (js ''nod'') j))"
proof -
  have 1: "sublist (js ''nod'') (js ''no_node'')"
    unfolding sublist_def
    by (rule exI [of _ "js ''no_''"], rule exI [of _ "js ''e''"]) (simp add: js_def)
  have 2: "js ''nod'' \<noteq> []" by (simp add: js_def)
  have 3: "\<not> isWhiteSpace (hd (js ''nod''))" by (simp add: js_def isWhiteSpace_def)
  have 4: "\<not> isWhiteSpace (last (js ''nod''))" by (simp add: js_def isWhiteSpace_def)
  from literal_substring_leftmost [OF 1 2 3 4] 1 2 3 4 show ?thesis by blast
qed

text \<open>
  Claim C1 as stated fails for a substring that starts with white space: \<open>'' ab''\<close> occurs
  in \<open>''ab ab''\<close> at index 2 and not at index 0, and the range returned is \<open>[0, 2]\<close>,
  because the needle is trimmed before the search.
\<close>

theorem literal_leading_space_counterexample:
  "sublist (js '' ab'') (js ''ab ab'')
   \<and> searchEntry complementRanges (js ''ab ab'') (js '' ab'') identityMapping = Some (Inr (Some [(0, 2)]))
   \<and> \<not> occursAt (js ''ab ab'') (js '' ab'') 0
   \<and> occursAt (js ''ab ab'') (js '' ab'') 2"
proof -
  have "sublist (js '' ab'') (js ''ab ab'')"
    unfolding sublist_def
    by (rule exI [of _ "js ''ab''"], rule exI [of _ "[]"]) (simp add: js_def)
  moreover have "searchEntry complementRanges (js ''ab ab'') (js '' ab'') identityMapping
                   = Some (Inr (Some [(0, 2)]))"
    by (simp add: searchEntry_def searchWithIndexof_def indexOf_def trim_def isWhiteSpace_def js_def)
  moreover have "\<not> occursAt (js ''ab ab'') (js '' ab'') 0" "occursAt (js ''ab ab'') (js '' ab'') 2"
    by (simp_all add: occursAt_def js_def)
  ultimately show ?thesis by blast
qed

text \<open>
  Claim C2: a query that is empty or only white space gives no-match. The code does not do
  so: for the source \<open>''abc''\<close>, \<open>searchEntry\<close> returns the range \<open>[0, -1]\<close> for the empty
  query and \<open>[0, 1]\<close> for a query of two spaces, and \<open>searchSentenceByBoundaryMapping\<close>
  returns \<open>[0, 1]\<close> for the two spaces. Only the empty query given to
  \<open>searchSentenceByBoundaryMapping\<close> is answered with no-match.
\<close>

theorem blank_query_hits:
  "searchEntry complementRanges (js ''abc'') (js '''') identityMapping = Some (Inr (Some [(0, -1)]))
   \<and> searchEntry complementRanges (js ''abc'') (js ''  '') identityMapping = Some (Inr (Some [(0, 1)]))
   \<and> searchSentenceByBoundaryMapping complementRanges (identityMapping (js ''abc'')) (js ''  '')
       = Some (Inr (Some [(0, 1)]))
   \<and> searchSentenceByBoundaryMapping complementRanges (identityMapping (js ''abc'')) (js '''')
       = Some (Inr None)"
  by (simp add: searchEntry_def searchSentenceByBoundaryMapping_def searchWithIndexof_def indexOf_def
        trim_def isWhiteSpace_def js_def identityMapping_def)

section \<open>The scoring loops keep their invariants\<close>

lemma at_prefix: "at row i = Some x \<Longrightarrow> prefix row row' \<Longrightarrow> at row' i = Some x"
  by (auto simp: at_def prefix_def nth_append split: if_splits)

lemma chain_prefix: "chain hi row i \<Longrightarrow> prefix row row' \<Longrightarrow> chain hi row' i"
proof (induction rule: chain.induct)
  case chain_done
  show ?case by (rule chain.chain_done)
next
  case (chain_step i s e n)
  from chain_step.hyps(2) chain_step.prems have "at row' i = Some (Some (s, e, n))"
    by (rule at_prefix)
  with chain_step show ?case by (auto intro: chain.chain_step)
qed

lemma prefix_take_le: "k \<le> k' \<Longrightarrow> prefix (take k xs) (take k' xs)"
  by (metis min.absorb1 take_is_prefix take_take)

lemma chain_take_mono: "chain hi (take k row) i \<Longrightarrow> k \<le> k' \<Longrightarrow> chain hi (take k' row) i"
  by (erule chain_prefix) (rule prefix_take_le)

lemma backtrack_chain:
  assumes "chain hi row i"
  shows "\<exists>hits. backtrack row startIndex i acc = Some (Inr (hits @ acc))
           \<and> (\<forall>r \<in> set hits. startIndex \<le> fst r \<and> fst r \<le> snd r \<and> snd r \<le> hi + startIndex)"
  using assms
proof (induction arbitrary: acc rule: chain.induct)
  case chain_done
  show ?case by (subst backtrack.simps) simp
next
  case (chain_step i s e n)
  from chain_step.IH [of "(s + startIndex, e + startIndex) # acc"]
  obtain hits where h: "backtrack row startIndex (i - n) ((s + startIndex, e + startIndex) # acc)
      = Some (Inr (hits @ (s + startIndex, e + startIndex) # acc))"
    "\<forall>r \<in> set hits. startIndex \<le> fst r \<and> fst r \<le> snd r \<and> snd r \<le> hi + startIndex"
    by blast
  have "backtrack row startIndex i acc = Some (Inr ((hits @ [(s + startIndex, e + startIndex)]) @ acc))"
    using chain_step.hyps(1,2) h(1) by (subst backtrack.simps) simp
  moreover have "\<forall>r \<in> set (hits @ [(s + startIndex, e + startIndex)]).
      startIndex \<le> fst r \<and> fst r \<le> snd r \<and> snd r \<le> hi + startIndex"
    using h(2) chain_step.hyps by auto
  ultimately show ?case by blast
qed

lemma itemOK_take_mono:
  "itemOK m (take k row) n i item \<Longrightarrow> k \<le> k' \<Longrightarrow> itemOK m (take k' row) n i item"
  by (auto simp: itemOK_def intro: chain_take_mono)

lemma scoreOK_take_mono:
  "scoreOK (take k row) n s \<Longrightarrow> k \<le> k' \<Longrightarrow> scoreOK (take k' row) n s"
proof -
  assume a: "scoreOK (take k row) n s" and le: "k \<le> k'"
  have *: "\<And>c. at (take k row) (int n - 1) = Some (Some c) \<Longrightarrow> at (take k' row) (int n - 1) = Some (Some c)"
    by (erule at_prefix) (rule prefix_take_le [OF le])
  show ?thesis using a * unfolding scoreOK_def by fast
qed

lemma cellOK_take_mono:
  "cellOK m (take k row) n c \<Longrightarrow> k \<le> k' \<Longrightarrow> cellOK m (take k' row) n c"
  by (auto simp: cellOK_def intro: chain_take_mono split: option.splits)

lemma settled_Suc:
  assumes "settled m (take k row)" "k < length row"
    and "cellOK m (take k row) k (row ! k)"
  shows "settled m (take (Suc k) row)"
  unfolding settled_def
proof (intro allI impI)
  fix i assume i: "i < length (take (Suc k) row)" "take (Suc k) row ! i \<noteq> None"
  let ?hi = "relChar m (length (sliceString m))"
  show "chain ?hi (take (Suc k) row) (int i)"
  proof (cases "i < k")
    case True
    then have "take k row ! i \<noteq> None" "i < length (take k row)" using i assms(2) by auto
    with assms(1) have "chain ?hi (take k row) (int i)" by (auto simp: settled_def)
    then show ?thesis by (rule chain_take_mono) simp
  next
    case False
    with i assms(2) have ik: "i = k" by auto
    with i obtain s e n where c: "row ! k = Some (s, e, n)" by (cases "row ! k") auto
    with assms(3) have ok: "1 \<le> n" "0 \<le> s" "s \<le> e" "e \<le> ?hi" "chain ?hi (take k row) (int k - n)"
      by (auto simp: cellOK_def)
    have "at (take (Suc k) row) (int k) = Some (Some (s, e, n))"
      using c assms(2) by (simp add: at_def)
    moreover have "chain ?hi (take (Suc k) row) (int k - n)"
      using ok(5) by (rule chain_take_mono) simp
    ultimately show ?thesis using ok ik by (auto intro: chain.chain_step)
  qed
qed

lemma relChar_pos: "0 < j \<Longrightarrow> relChar m j = fst (sliceBoundary m ! j) - startBoundary m"
  by (simp add: relChar_def)

lemma relChar_nonneg:
  assumes "alignedSlices m" "1 \<le> j" "j \<le> length (sliceString m)"
  shows "0 \<le> relChar m j"
  using assms unfolding alignedSlices_def relChar_def by (auto dest: spec [of _ 1])

lemma relChar_mono:
  assumes "alignedSlices m" "i \<le> j" "j \<le> length (sliceString m)"
  shows "relChar m i \<le> relChar m j"
proof (cases "i = 0")
  case True
  then show ?thesis using relChar_nonneg [OF assms(1), of j] assms(3)
    by (cases "j = 0") (auto simp: relChar_def)
next
  case False
  then show ?thesis using assms unfolding alignedSlices_def relChar_def by auto
qed

lemma at_nth: "i < length xs \<Longrightarrow> at xs (int i) = Some (xs ! i)"
  by (simp add: at_def)

lemma innerBody_cases [consumes 3, case_names recorded carried]:
  assumes al: "alignedSlices m" and j: "1 \<le> j" "j \<le> length (sliceString m)"
  obtains
    (recorded) pms pml pbs pbe where
      "currentDpTableItem st = (pms, pml, pbs, pbe)"
      "eligible m k j (sliceBoundary m ! j) (pms, pml, pbs, pbe) (currentScore st)"
      "dpScores st ! (j - 1) \<le> currentScore st + (pml * 2 + 1)"
      "innerBody m k j st = Inr (st\<lparr>currentDpTableItem := dpTable st ! j,
           currentScore := dpScores st ! j,
           dpScores := (dpScores st)[j := currentScore st + (pml * 2 + 1)],
           dpTable := (dpTable st)[j :=
              (pms + (if isNewWord m j (sliceBoundary m ! j) (pms, pml, pbs, pbe) then 1 else 0),
               pml + 1, relChar m j, snd (sliceBoundary m ! j) - endBoundary m)],
           dpMatchPath := (dpMatchPath st)[j := (dpMatchPath st ! j)[k :=
              (if dpScores st ! (j - 1) < currentScore st + (pml * 2 + 1)
               then Some (relChar m j - pms
                            + (if isNewWord m j (sliceBoundary m ! j) (pms, pml, pbs, pbe) then 0 else 1),
                          relChar m j, pml + 1)
               else dpMatchPath st ! (j - 1) ! k)]]\<rparr>)"
  | (carried) T where
      "T = dpTable st ! (j - 1) \<or> T = defaultDpTableValue"
      "innerBody m k j st = Inr (st\<lparr>currentDpTableItem := dpTable st ! j,
           currentScore := dpScores st ! j,
           dpScores := (dpScores st)[j := dpScores st ! (j - 1)],
           dpTable := (dpTable st)[j := T],
           dpMatchPath := (dpMatchPath st)[j := (dpMatchPath st ! j)[k := dpMatchPath st ! (j - 1) ! k]]\<rparr>)"
proof -
  let ?P = "length (sliceString m)"
  let ?b = "sliceBoundary m ! j"
  have len: "length (sliceBoundary m) = ?P + 1" using al by (simp add: alignedSlices_def)
  have atj: "at (sliceBoundary m) (int j) = Some ?b" using j len by (simp add: at_nth)
  have atn: "int j < int ?P - 1 \<Longrightarrow> at (sliceBoundary m) (int j + 1) = Some (sliceBoundary m ! Suc j)"
    using len at_nth [of "Suc j" "sliceBoundary m"] by (simp add: add.commute)
  obtain pms pml pbs pbe where prev: "currentDpTableItem st = (pms, pml, pbs, pbe)"
    by (cases "currentDpTableItem st") auto
  let ?st1 = "st\<lparr>currentDpTableItem := dpTable st ! j, currentScore := dpScores st ! j\<rparr>"
  let ?prev = "dpTable st ! (j - 1)"
  let ?gap = "fst ?b - startBoundary m - fst (snd (snd ?prev))"
  let ?T = "if ?gap = 0 then ?prev
            else if int j < int ?P - 1 \<and> ?gap = 1
                 then (if fst ?b = fst (sliceBoundary m ! Suc j) then ?prev else defaultDpTableValue)
                 else defaultDpTableValue"
  have T: "?T = ?prev \<or> ?T = defaultDpTableValue" by simp
  have carry: "carryForward m k j ?b ?st1 = Inr (st\<lparr>currentDpTableItem := dpTable st ! j,
           currentScore := dpScores st ! j,
           dpScores := (dpScores st)[j := dpScores st ! (j - 1)],
           dpTable := (dpTable st)[j := ?T],
           dpMatchPath := (dpMatchPath st)[j := (dpMatchPath st ! j)[k := dpMatchPath st ! (j - 1) ! k]]\<rparr>)"
    using atn by (simp add: carryForward_def Let_def)
  show thesis
  proof (cases "eligible m k j ?b (pms, pml, pbs, pbe) (currentScore st)
                \<and> dpScores st ! (j - 1) \<le> currentScore st + (pml * 2 + 1)")
    case True
    then have "innerBody m k j st = Inr (recordExtension m k j ?b (pms, pml, pbs, pbe)
                 (currentScore st + (pml * 2 + 1)) ?st1)"
      using atj prev by (simp add: innerBody_def Let_def extendedScore_def)
    then show thesis
      using True prev j by (intro recorded [of pms pml pbs pbe])
        (auto simp: recordExtension_def Let_def relChar_def)
  next
    case False
    then have "innerBody m k j st = carryForward m k j ?b ?st1"
      using atj prev by (auto simp: innerBody_def Let_def extendedScore_def)
    with carry T show thesis by (intro carried [of ?T]) simp_all
  qed
qed

lemma innerInv_write:
  assumes inv: "innerInv m k lo j st" and lo: "lo < j" and j: "j \<le> length (sliceString m)"
    and k: "k < length (word m)"
    and T: "itemOK m (take k (dpMatchPath st ! length (sliceString m))) (Suc k) j T"
    and S: "0 \<le> S" "0 < S \<longrightarrow> C \<noteq> None"
    and C: "cellOK m (take k (dpMatchPath st ! length (sliceString m))) k C"
           "dpMatchPath st ! (j - 1) ! k \<noteq> None \<longrightarrow> C \<noteq> None"
  shows "innerInv m k lo (Suc j)
           (st\<lparr>currentDpTableItem := dpTable st ! j, currentScore := dpScores st ! j,
               dpScores := (dpScores st)[j := S], dpTable := (dpTable st)[j := T],
               dpMatchPath := (dpMatchPath st)[j := (dpMatchPath st ! j)[k := C]]\<rparr>)"
    (is "innerInv m k lo (Suc j) ?st'")
proof -
  let ?P = "length (sliceString m)"
  let ?row = "take k (dpMatchPath st ! ?P)"
  from inv have ar: "arraysOK m st" and un: "untouched m (Suc k) st" and se: "settled m ?row"
    and a: "\<And>i. lo \<le> i \<Longrightarrow> i < j \<Longrightarrow> itemOK m ?row (Suc k) i (dpTable st ! i) \<and> 0 \<le> dpScores st ! i
              \<and> (0 < dpScores st ! i \<longrightarrow> dpMatchPath st ! (j - 1) ! k \<noteq> None)"
    and b: "\<And>i. j \<le> i \<Longrightarrow> i \<le> ?P \<Longrightarrow> itemOK m ?row k i (dpTable st ! i) \<and> scoreOK ?row k (dpScores st ! i)"
    unfolding innerInv_def by blast+
  from ar have len: "length (dpTable st) = ?P + 1" "length (dpScores st) = ?P + 1"
    "length (dpMatchPath st) = ?P + 1" and rows: "\<And>i. i \<le> ?P \<Longrightarrow> length (dpMatchPath st ! i) = length (word m)"
    unfolding arraysOK_def by blast+
  have path: "\<And>i. i \<le> ?P \<Longrightarrow> dpMatchPath ?st' ! i = (if i = j then (dpMatchPath st ! j)[k := C] else dpMatchPath st ! i)"
    using len j by (simp add: nth_list_update)
  have row: "take k (dpMatchPath ?st' ! ?P) = ?row"
    using path [of ?P] by simp
  have front: "dpMatchPath ?st' ! j ! k = C"
    using path [of j] j k rows [of j] by simp
  have ar': "arraysOK m ?st'"
    unfolding arraysOK_def using len rows path by simp
  have un': "untouched m (Suc k) ?st'"
    unfolding untouched_def
  proof (intro allI impI)
    fix i k' assume h: "i \<le> ?P \<and> Suc k \<le> k' \<and> k' < length (word m)"
    then have "dpMatchPath st ! i ! k' = None" using un unfolding untouched_def by blast
    then show "dpMatchPath ?st' ! i ! k' = None" using path [of i] h by (cases "i = j") auto
  qed
  have a': "\<forall>i. lo \<le> i \<and> i < Suc j \<longrightarrow>
           itemOK m ?row (Suc k) i (dpTable ?st' ! i)
           \<and> 0 \<le> dpScores ?st' ! i
           \<and> (0 < dpScores ?st' ! i \<longrightarrow> dpMatchPath ?st' ! (Suc j - 1) ! k \<noteq> None)"
  proof (intro allI impI)
    fix i assume i: "lo \<le> i \<and> i < Suc j"
    show "itemOK m ?row (Suc k) i (dpTable ?st' ! i) \<and> 0 \<le> dpScores ?st' ! i
              \<and> (0 < dpScores ?st' ! i \<longrightarrow> dpMatchPath ?st' ! (Suc j - 1) ! k \<noteq> None)"
    proof (cases "i = j")
      case True
      then show ?thesis using T S front len j by simp
    next
      case False
      with i have "i < j" by simp
      from a [OF _ this] i C(2) False front show ?thesis by simp
    qed
  qed
  have f': "cellOK m ?row k (dpMatchPath ?st' ! (Suc j - 1) ! k)"
    using C(1) front by simp
  have b': "\<forall>i. Suc j \<le> i \<and> i \<le> ?P \<longrightarrow>
           itemOK m ?row k i (dpTable ?st' ! i) \<and> scoreOK ?row k (dpScores ?st' ! i)"
    using b by simp
  have c': "itemOK m ?row k (Suc j - 1) (currentDpTableItem ?st')" "scoreOK ?row k (currentScore ?st')"
    using b [of j] j by simp_all
  show ?thesis
    unfolding innerInv_def row
    by (intro conjI ar' un' se a' f' b' c')
qed

lemma itemOK_default: 
  assumes "alignedSlices m" "i \<le> length (sliceString m)"
  shows "itemOK m row n i defaultDpTableValue"
  using relChar_mono [OF assms(1), of 0 i] assms(2)
  by (simp add: itemOK_def defaultDpTableValue_def relChar_def)

lemma itemOK_shift:
  assumes "alignedSlices m" "itemOK m row n i item" "i \<le> j" "j \<le> length (sliceString m)"
  shows "itemOK m row n j item"
  using relChar_mono [OF assms(1,3,4)] assms(2)
  by (auto simp: itemOK_def)

lemma at_Some_iff: "at xs (int i) = Some x \<longleftrightarrow> i < length xs \<and> xs ! i = x"
  by (auto simp: at_def)

lemma settled_chain:
  assumes "settled m (take k row)" "k \<le> length row" "0 < k"
    and "at (take k row) (int k - 1) = Some (Some c)"
  shows "chain (relChar m (length (sliceString m))) (take k row) (int k - 1)"
proof -
  have e: "int k - 1 = int (k - 1)" using assms(3) by simp
  from assms(4) have l: "k - 1 < length (take k row)" and "take k row ! (k - 1) = Some c"
    unfolding e at_Some_iff by simp_all
  then have ne: "take k row ! (k - 1) \<noteq> None" by simp
  from assms(1) [unfolded settled_def, rule_format, OF l ne] show ?thesis unfolding e .
qed

lemma innerInv_step:
  assumes al: "alignedSlices m" and inv: "innerInv m k lo j st" and lo: "lo < j"
    and j: "j \<le> length (sliceString m)" and k: "k < length (word m)"
  shows "\<exists>st'. innerBody m k j st = Inr st' \<and> innerInv m k lo (Suc j) st'"
proof -
  let ?P = "length (sliceString m)"
  let ?row = "take k (dpMatchPath st ! ?P)"
  let ?hi = "relChar m ?P"
  from lo have j1: "1 \<le> j" by simp
  from inv have ar: "arraysOK m st" and se: "settled m ?row"
    and a: "\<And>i. lo \<le> i \<Longrightarrow> i < j \<Longrightarrow> itemOK m ?row (Suc k) i (dpTable st ! i) \<and> 0 \<le> dpScores st ! i
              \<and> (0 < dpScores st ! i \<longrightarrow> dpMatchPath st ! (j - 1) ! k \<noteq> None)"
    and f: "cellOK m ?row k (dpMatchPath st ! (j - 1) ! k)"
    and ci: "itemOK m ?row k (j - 1) (currentDpTableItem st)"
    and cs: "scoreOK ?row k (currentScore st)"
    unfolding innerInv_def by blast+
  from ar k have klen: "k \<le> length (dpMatchPath st ! ?P)" unfolding arraysOK_def by simp
  from a [of "j - 1"] lo
  have pj: "itemOK m ?row (Suc k) (j - 1) (dpTable st ! (j - 1))" "0 \<le> dpScores st ! (j - 1)"
    "0 < dpScores st ! (j - 1) \<longrightarrow> dpMatchPath st ! (j - 1) ! k \<noteq> None" by simp_all
  from al j1 j show ?thesis
  proof (cases rule: innerBody_cases [where st = st and k = k])
    case (recorded pms pml pbs pbe)
    let ?b = "sliceBoundary m ! j"
    let ?new = "isNewWord m j ?b (pms, pml, pbs, pbe)"
    let ?S = "currentScore st + (pml * 2 + 1)"
    let ?T = "(pms + (if ?new then 1 else 0), pml + 1, relChar m j, snd ?b - endBoundary m)"
    let ?C = "if dpScores st ! (j - 1) < ?S
              then Some (relChar m j - pms + (if ?new then 0 else 1), relChar m j, pml + 1)
              else dpMatchPath st ! (j - 1) ! k"
    from ci recorded(1) have it: "0 \<le> pms" "0 \<le> pml" "pms \<le> pbs + 1" "pbs \<le> relChar m (j - 1)"
      "0 < pml \<longrightarrow> chain ?hi ?row (int k - 1 - pml)"
      by (simp_all add: itemOK_def)
    from cs have sc: "0 \<le> currentScore st"
      "0 < currentScore st \<longrightarrow> 1 \<le> k \<and> (\<exists>c. at ?row (int k - 1) = Some (Some c))"
      by (simp_all add: scoreOK_def)
    have mono: "relChar m (j - 1) \<le> relChar m j" "relChar m j \<le> ?hi"
      using relChar_mono [OF al, of "j - 1" j] relChar_mono [OF al, of j ?P] j by simp_all
    from recorded(2) have el: "?new \<or> isContinuation m k j ?b (pms, pml, pbs, pbe)"
      "k = 0 \<or> 0 < currentScore st"
      by (simp_all add: eligible_def)
    have new: "?new \<Longrightarrow> pbs < relChar m j"
      using it(4) mono(1) j1 by (simp add: isNewWord_def relChar_def)
    have cont: "\<not> ?new \<Longrightarrow> 0 < pms"
      using el(1) by (auto simp: isContinuation_def)
    have ch: "chain ?hi ?row (int k - 1 - pml)"
    proof (cases "0 < pml")
      case True
      with it(5) show ?thesis by simp
    next
      case False
      with it(2) have p0: "pml = 0" by simp
      show ?thesis
      proof (cases "k = 0")
        case True
        with p0 show ?thesis by (simp add: chain.chain_done)
      next
        case False
        with el(2) sc(2) obtain c where "at ?row (int k - 1) = Some (Some c)" by auto
        from settled_chain [OF se klen _ this] False p0 show ?thesis by simp
      qed
    qed
    have ch2: "chain ?hi ?row (int (Suc k) - 1 - (pml + 1))" "chain ?hi ?row (int k - (pml + 1))"
      using ch by (simp_all add: algebra_simps)
    have b1: "pms + (if ?new then 1 else 0) \<le> relChar m j + 1"
      using it(3,4) mono(1) new by (cases ?new) simp_all
    have b2: "0 \<le> relChar m j - pms + (if ?new then 0 else 1)"
      using it(3,4) mono(1) new by (cases ?new) simp_all
    have b3: "relChar m j - pms + (if ?new then 0 else 1) \<le> relChar m j"
      using it(1) cont by (cases ?new) simp_all
    have b4: "0 \<le> pms + (if ?new then 1 else 0)" "0 \<le> pml + 1" "1 \<le> pml + 1"
      using it(1,2) by simp_all
    have T: "itemOK m ?row (Suc k) j ?T"
      unfolding itemOK_def using b1 b4 ch2(1) by simp
    have S: "0 \<le> ?S" "0 < ?S \<longrightarrow> ?C \<noteq> None"
      using sc(1) it(2) pj(3) recorded(3) by auto
    have "cellOK m ?row k (Some (relChar m j - pms + (if ?new then 0 else 1), relChar m j, pml + 1))"
      unfolding cellOK_def using b2 b3 b4 mono(2) ch2(2) by simp
    with f have C: "cellOK m ?row k ?C" by simp
    have C2: "dpMatchPath st ! (j - 1) ! k \<noteq> None \<longrightarrow> ?C \<noteq> None" by simp
    from innerInv_write [OF inv lo j k T S C C2] recorded(4) show ?thesis by simp
  next
    case (carried T)
    have T: "itemOK m ?row (Suc k) j T"
      using carried(1) itemOK_default [OF al j] itemOK_shift [OF al pj(1) _ j] by auto
    from innerInv_write [OF inv lo j k T pj(2) pj(3) f] carried(2) show ?thesis by simp
  qed
qed

lemma innerLoop_inv:
  assumes al: "alignedSlices m" and k: "k < length (word m)"
  shows "innerInv m k lo j st \<Longrightarrow> lo < j \<Longrightarrow> j \<le> Suc (length (sliceString m))
     \<Longrightarrow> \<exists>st'. forEach (innerBody m k) [j ..< Suc (length (sliceString m))] st = Inr st'
           \<and> innerInv m k lo (Suc (length (sliceString m))) st'"
proof (induction "Suc (length (sliceString m)) - j" arbitrary: j st)
  case 0
  then have "j = Suc (length (sliceString m))" by simp
  with 0 show ?case by simp
next
  case (Suc d)
  then have j: "j \<le> length (sliceString m)" by simp
  from innerInv_step [OF al Suc.prems(1,2) j k]
  obtain st1 where st1: "innerBody m k j st = Inr st1" "innerInv m k lo (Suc j) st1" by blast
  from Suc.hyps(2) have "d = Suc (length (sliceString m)) - Suc j" by simp
  from Suc.hyps(1) [OF this st1(2)] Suc.prems(2) j
  obtain st' where "forEach (innerBody m k) [Suc j ..< Suc (length (sliceString m))] st1 = Inr st'"
    "innerInv m k lo (Suc (length (sliceString m))) st'" by auto
  moreover have "[j ..< Suc (length (sliceString m))] = j # [Suc j ..< Suc (length (sliceString m))]"
    using j by (simp add: upt_conv_Cons)
  ultimately show ?case using st1(1) by simp
qed

lemma matchPositionsFrom_bounds:
  "x \<in> set (matchPositionsFrom i p t) \<Longrightarrow> i \<le> x \<and> x < i + length p"
  by (induction i p t rule: matchPositionsFrom.induct) (auto split: if_splits)

lemma matchPositionsFrom_sorted: "sorted_wrt (<) (matchPositionsFrom i p t)"
  by (induction i p t rule: matchPositionsFrom.induct)
     (auto dest!: matchPositionsFrom_bounds)

lemma nth_Cons_replicate: "i \<le> n \<Longrightarrow> (x # replicate n x) ! i = x"
  by (cases i) auto

lemma outerInv_initial:
  assumes al: "alignedSlices m"
  shows "outerInv m 0 0 (initialState (length (sliceString m)) (length (word m)))"
proof -
  have "settled m []" by (simp add: settled_def)
  moreover have "scoreOK [] 0 0" by (simp add: scoreOK_def)
  ultimately show ?thesis
    using itemOK_default [OF al]
    by (simp add: outerInv_def initialState_def arraysOK_def untouched_def nth_Cons_replicate)
qed

lemma outerInv_step:
  assumes al: "alignedSlices m" and inv: "outerInv m k lo st"
    and mp: "lo \<le> matchPositions ! k" "matchPositions ! k < length (sliceString m)"
    and k: "k < length (word m)"
  shows "\<exists>st'. outerBody m matchPositions k st = Inr st'
           \<and> outerInv m (Suc k) (matchPositions ! k) st'"
proof -
  let ?P = "length (sliceString m)"
  let ?mp = "matchPositions ! k"
  let ?row = "take k (dpMatchPath st ! ?P)"
  let ?st1 = "st\<lparr>currentDpTableItem := dpTable st ! ?mp, currentScore := dpScores st ! ?mp,
                  dpScores := (dpScores st)[?mp := 0],
                  dpTable := (dpTable st)[?mp := defaultDpTableValue]\<rparr>"
  from inv have ar: "arraysOK m st" and un: "untouched m k st" and se: "settled m ?row"
    and b: "\<And>i. lo \<le> i \<Longrightarrow> i \<le> ?P \<Longrightarrow>
              itemOK m ?row k i (dpTable st ! i) \<and> scoreOK ?row k (dpScores st ! i)"
    unfolding outerInv_def by blast+
  from ar have len: "length (dpTable st) = ?P + 1" "length (dpScores st) = ?P + 1"
    unfolding arraysOK_def by blast+
  have ar1: "arraysOK m ?st1" using ar by (simp add: arraysOK_def)
  have un1: "untouched m (Suc k) ?st1" using un by (simp add: untouched_def)
  have a1: "\<forall>i. ?mp \<le> i \<and> i < Suc ?mp \<longrightarrow>
      itemOK m (take k (dpMatchPath ?st1 ! ?P)) (Suc k) i (dpTable ?st1 ! i)
      \<and> 0 \<le> dpScores ?st1 ! i
      \<and> (0 < dpScores ?st1 ! i \<longrightarrow> dpMatchPath ?st1 ! (Suc ?mp - 1) ! k \<noteq> None)"
  proof (intro allI impI)
    fix i assume "?mp \<le> i \<and> i < Suc ?mp"
    then have "i = ?mp" by simp
    then show "itemOK m (take k (dpMatchPath ?st1 ! ?P)) (Suc k) i (dpTable ?st1 ! i)
      \<and> 0 \<le> dpScores ?st1 ! i
      \<and> (0 < dpScores ?st1 ! i \<longrightarrow> dpMatchPath ?st1 ! (Suc ?mp - 1) ! k \<noteq> None)"
      using itemOK_default [OF al, of ?mp] mp(2) len by simp
  qed
  have "dpMatchPath st ! ?mp ! k = None"
    using un mp(2) k unfolding untouched_def by simp
  then have f1: "cellOK m (take k (dpMatchPath ?st1 ! ?P)) k (dpMatchPath ?st1 ! (Suc ?mp - 1) ! k)"
    by (simp add: cellOK_def)
  have b1: "\<forall>i. Suc ?mp \<le> i \<and> i \<le> ?P \<longrightarrow>
      itemOK m (take k (dpMatchPath ?st1 ! ?P)) k i (dpTable ?st1 ! i)
      \<and> scoreOK (take k (dpMatchPath ?st1 ! ?P)) k (dpScores ?st1 ! i)"
    using b mp(1) by simp
  have c1: "itemOK m (take k (dpMatchPath ?st1 ! ?P)) k (Suc ?mp - 1) (currentDpTableItem ?st1)"
    "scoreOK (take k (dpMatchPath ?st1 ! ?P)) k (currentScore ?st1)"
    using b [of ?mp] mp by simp_all
  have se1: "settled m (take k (dpMatchPath ?st1 ! ?P))" using se by simp
  have inv1: "innerInv m k ?mp (Suc ?mp) ?st1"
    unfolding innerInv_def by (intro conjI ar1 un1 se1 a1 f1 b1 c1)
  from innerLoop_inv [OF al k inv1] mp(2)
  obtain st' where st': "forEach (innerBody m k) [Suc ?mp ..< Suc ?P] ?st1 = Inr st'"
    "innerInv m k ?mp (Suc ?P) st'" by auto
  let ?row' = "dpMatchPath st' ! ?P"
  from st'(2) have ar': "arraysOK m st'" and un': "untouched m (Suc k) st'"
    and se': "settled m (take k ?row')"
    and a': "\<And>i. ?mp \<le> i \<Longrightarrow> i < Suc ?P \<Longrightarrow> itemOK m (take k ?row') (Suc k) i (dpTable st' ! i)
               \<and> 0 \<le> dpScores st' ! i
               \<and> (0 < dpScores st' ! i \<longrightarrow> dpMatchPath st' ! (Suc ?P - 1) ! k \<noteq> None)"
    and f': "cellOK m (take k ?row') k (dpMatchPath st' ! (Suc ?P - 1) ! k)"
    unfolding innerInv_def by blast+
  from ar' k have kl: "k < length ?row'" unfolding arraysOK_def by simp
  have se2: "settled m (take (Suc k) ?row')"
    using settled_Suc [OF se' kl] f' by simp
  have b2: "\<forall>i. ?mp \<le> i \<and> i \<le> ?P \<longrightarrow>
       itemOK m (take (Suc k) ?row') (Suc k) i (dpTable st' ! i)
       \<and> scoreOK (take (Suc k) ?row') (Suc k) (dpScores st' ! i)"
  proof (intro allI impI)
    fix i assume i: "?mp \<le> i \<and> i \<le> ?P"
    with a' [of i] have x: "itemOK m (take k ?row') (Suc k) i (dpTable st' ! i)"
      "0 \<le> dpScores st' ! i" "0 < dpScores st' ! i \<longrightarrow> ?row' ! k \<noteq> None"
      by simp_all
    have "itemOK m (take (Suc k) ?row') (Suc k) i (dpTable st' ! i)"
      using x(1) by (rule itemOK_take_mono) simp
    moreover have "scoreOK (take (Suc k) ?row') (Suc k) (dpScores st' ! i)"
      unfolding scoreOK_def using x(2,3) kl by (auto simp: at_def)
    ultimately show "itemOK m (take (Suc k) ?row') (Suc k) i (dpTable st' ! i)
       \<and> scoreOK (take (Suc k) ?row') (Suc k) (dpScores st' ! i)" ..
  qed
  have "outerInv m (Suc k) ?mp st'"
    unfolding outerInv_def by (intro conjI ar' un' se2 b2)
  moreover have "outerBody m matchPositions k st = Inr st'"
    using st'(1) by (simp add: outerBody_def Let_def)
  ultimately show ?thesis by blast
qed

lemma outerLoop_inv:
  assumes al: "alignedSlices m" and so: "sorted_wrt (<) matchPositions"
    and bd: "\<forall>x \<in> set matchPositions. x < length (sliceString m)"
    and le: "length matchPositions \<le> length (word m)"
  shows "outerInv m k lo st \<Longrightarrow> k \<le> length matchPositions
     \<Longrightarrow> (k < length matchPositions \<longrightarrow> lo \<le> matchPositions ! k)
     \<Longrightarrow> \<exists>st' lo'. forEach (outerBody m matchPositions) [k ..< length matchPositions] st = Inr st'
           \<and> outerInv m (length matchPositions) lo' st'"
proof (induction "length matchPositions - k" arbitrary: k lo st)
  case 0
  then have "k = length matchPositions" by simp
  with 0 show ?case by auto
next
  case (Suc d)
  then have k: "k < length matchPositions" by simp
  with le have kw: "k < length (word m)" by simp
  from k bd have mpb: "matchPositions ! k < length (sliceString m)" by simp
  from Suc.prems(3) k have lo: "lo \<le> matchPositions ! k" by simp
  from outerInv_step [OF al Suc.prems(1) lo mpb kw]
  obtain st1 where st1: "outerBody m matchPositions k st = Inr st1"
    "outerInv m (Suc k) (matchPositions ! k) st1" by blast
  have nx: "Suc k < length matchPositions \<longrightarrow> matchPositions ! k \<le> matchPositions ! Suc k"
    using so by (auto simp: sorted_wrt_iff_nth_less less_imp_le)
  from Suc.hyps(2) have "d = length matchPositions - Suc k" by simp
  from Suc.hyps(1) [OF this st1(2) _ nx] k
  obtain st' lo' where "forEach (outerBody m matchPositions) [Suc k ..< length matchPositions] st1 = Inr st'"
    "outerInv m (length matchPositions) lo' st'" by auto
  moreover have "[k ..< length matchPositions] = k # [Suc k ..< length matchPositions]"
    using k by (simp add: upt_conv_Cons)
  ultimately show ?case using st1(1) by auto
qed

lemma scoringLoops_inv:
  assumes al: "alignedSlices m"
    and full: "length (matchPositionsFrom 0 (sliceString m) (word m)) = length (word m)"
  shows "\<exists>st. scoringLoops m (matchPositionsFrom 0 (sliceString m) (word m)) = Inr st
           \<and> arraysOK m st \<and> settled m (dpMatchPath st ! length (sliceString m))"
proof -
  let ?mps = "matchPositionsFrom 0 (sliceString m) (word m)"
  have bd: "\<forall>x \<in> set ?mps. x < length (sliceString m)"
    using matchPositionsFrom_bounds [of _ 0 "sliceString m" "word m"] by auto
  have le: "length ?mps \<le> length (word m)" using full by simp
  from outerLoop_inv [OF al matchPositionsFrom_sorted bd le outerInv_initial [OF al]]
  obtain st lo where st: "forEach (outerBody m ?mps) [0 ..< length ?mps] (initialState (length (sliceString m)) (length (word m))) = Inr st"
    "outerInv m (length ?mps) lo st" by auto
  from st(2) have ar: "arraysOK m st" and "settled m (take (length ?mps) (dpMatchPath st ! length (sliceString m)))"
    unfolding outerInv_def by blast+
  moreover from ar have "length (dpMatchPath st ! length (sliceString m)) = length (word m)"
    unfolding arraysOK_def by simp
  ultimately have "settled m (dpMatchPath st ! length (sliceString m))" using full by simp
  with st(1) ar show ?thesis unfolding scoringLoops_def by blast
qed

lemma slice_inside:
  assumes "0 \<le> a" "a \<le> b" "b \<le> int (length xs)"
  shows "slice xs a b = take (nat b - nat a) (drop (nat a) xs)"
  using assms by (simp add: slice_def relIndex_def min_def)

lemma wellFormed_offsets:
  assumes wf: "wellFormed data" and r: "0 \<le> s" "s \<le> e" "e \<le> originalLength data"
  shows "at (originalIndices data) s = Some (originalIndices data ! nat s)"
    and "at (originalIndices data) e = Some (originalIndices data ! nat e)"
    and "0 \<le> originalIndices data ! nat s"
    and "originalIndices data ! nat s \<le> originalIndices data ! nat e"
    and "originalIndices data ! nat e \<le> int (length (pinyinString data))"
proof -
  from wf have len: "length (originalIndices data) = nat (originalLength data) + 1"
    and so: "sorted (originalIndices data)"
    and el: "\<forall>a \<in> set (originalIndices data). 0 \<le> a \<and> a \<le> int (length (pinyinString data))"
    unfolding wellFormed_def by blast+
  from r len have i: "nat s < length (originalIndices data)" "nat e < length (originalIndices data)"
    "nat s \<le> nat e" by auto
  show "at (originalIndices data) s = Some (originalIndices data ! nat s)"
    "at (originalIndices data) e = Some (originalIndices data ! nat e)"
    using r i by (simp_all add: at_def)
  show "0 \<le> originalIndices data ! nat s" "originalIndices data ! nat e \<le> int (length (pinyinString data))"
    using el i nth_mem by blast+
  show "originalIndices data ! nat s \<le> originalIndices data ! nat e"
    using so i by (simp add: sorted_iff_nth_mono)
qed

lemma wellFormed_slices:
  assumes wf: "wellFormed data" and r: "0 \<le> s" "s \<le> e" "e \<le> originalLength data"
  defines "a \<equiv> nat (originalIndices data ! nat s)" and "b \<equiv> nat (originalIndices data ! nat e)"
  shows "pinyinSlice data s e = take (b - a) (drop a (pinyinString data))"
    and "boundarySlice data s e = take (Suc b - a) (drop a (boundary data))"
    and "a \<le> b" and "b \<le> length (pinyinString data)"
proof -
  note o = wellFormed_offsets [OF wf r]
  from wf have bl: "length (boundary data) = length (pinyinString data) + 1"
    unfolding wellFormed_def by blast
  show "pinyinSlice data s e = take (b - a) (drop a (pinyinString data))"
    unfolding pinyinSlice_def o(1,2) a_def b_def using o(3,4,5) by (simp add: slice_inside)
  have "slice (boundary data) (originalIndices data ! nat s) (originalIndices data ! nat e + 1)
      = take (nat (originalIndices data ! nat e + 1) - a) (drop a (boundary data))"
    unfolding a_def using o(3,4,5) bl by (intro slice_inside) simp_all
  moreover have "nat (originalIndices data ! nat e + 1) = Suc b"
    unfolding b_def using o(3,4) by simp
  ultimately show "boundarySlice data s e = take (Suc b - a) (drop a (boundary data))"
    unfolding boundarySlice_def o(1,2) by simp
  show "a \<le> b" "b \<le> length (pinyinString data)"
    unfolding a_def b_def using o(3,4,5) by simp_all
qed

lemma wellFormed_character:
  assumes wf: "wellFormed data" and r: "0 \<le> s" "s \<le> e" "e \<le> originalLength data"
    and p: "nat (originalIndices data ! nat s) \<le> p" "p < nat (originalIndices data ! nat e)"
  shows "s \<le> fst (boundary data ! Suc p) \<and> fst (boundary data ! Suc p) < e"
proof -
  let ?oi = "originalIndices data"
  let ?c = "fst (boundary data ! Suc p)"
  note o = wellFormed_offsets [OF wf r]
  from wf have len: "length ?oi = nat (originalLength data) + 1" and so: "sorted ?oi"
    and al: "\<forall>p \<in> set [0 ..< length (pinyinString data)].
          0 \<le> fst (boundary data ! Suc p) \<and> fst (boundary data ! Suc p) < originalLength data
          \<and> ?oi ! nat (fst (boundary data ! Suc p)) \<le> int p
          \<and> int p < ?oi ! Suc (nat (fst (boundary data ! Suc p)))"
    unfolding wellFormed_def by blast+
  from p o(5) have "p < length (pinyinString data)" by simp
  with al have c: "0 \<le> ?c" "?c < originalLength data" "?oi ! nat ?c \<le> int p" "int p < ?oi ! Suc (nat ?c)"
    by simp_all
  have "s \<le> ?c"
  proof (rule ccontr)
    assume "\<not> s \<le> ?c"
    then have "Suc (nat ?c) \<le> nat s" using c(1) by simp
    moreover have "nat s < length ?oi" using r len by simp
    ultimately have "?oi ! Suc (nat ?c) \<le> ?oi ! nat s" using so by (simp add: sorted_iff_nth_mono)
    with c(4) p(1) o(3) show False by simp
  qed
  moreover have "?c < e"
  proof (rule ccontr)
    assume "\<not> ?c < e"
    then have "nat e \<le> nat ?c" using c(1) r by simp
    moreover have "nat ?c < length ?oi" using c(1,2) len by simp
    ultimately have "?oi ! nat e \<le> ?oi ! nat ?c" using so by (simp add: sorted_iff_nth_mono)
    with c(3) p(2) show False by simp
  qed
  ultimately show ?thesis ..
qed

lemma matchPositionsFrom_length_le: "length (matchPositionsFrom i p t) \<le> length t"
  by (induction i p t rule: matchPositionsFrom.induct) auto

lemma length_take_drop: "a \<le> b \<Longrightarrow> b \<le> length xs \<Longrightarrow> length (take (b - a) (drop a xs)) = b - a"
  by auto

lemma nth_take_drop: "j < c \<Longrightarrow> a + j < length xs \<Longrightarrow> take c (drop a xs) ! j = xs ! (a + j)"
  by simp

lemma searchByBoundaryMapping_total:
  assumes wf: "wellFormed data" and r: "0 \<le> s" "s \<le> e" "e \<le> originalLength data"
  shows "\<exists>res. searchByBoundaryMapping data t s e = Some (Inr res)
           \<and> (\<forall>hits. res = Some hits \<longrightarrow>
                 (\<forall>x \<in> set hits. s \<le> fst x \<and> fst x \<le> snd x \<and> snd x < e))"
proof -
  let ?ps = "pinyinSlice data s e"
  let ?bs = "boundarySlice data s e"
  let ?P = "length ?ps"
  let ?Q = "length t"
  define a where "a = nat (originalIndices data ! nat s)"
  define b where "b = nat (originalIndices data ! nat e)"
  note sl = wellFormed_slices [OF wf r, folded a_def b_def]
  note ch = wellFormed_character [OF wf r, folded a_def b_def]
  show ?thesis
  proof (cases "t = [] \<or> ?P < ?Q \<or> originalLength data = 0")
    case True
    then show ?thesis by (auto simp: searchByBoundaryMapping_def Let_def)
  next
    case False
    then have Q: "1 \<le> ?Q" "?Q \<le> ?P" by (cases t; simp)+
    from wf have bl: "length (boundary data) = length (pinyinString data) + 1"
      and so: "sorted (map fst (boundary data))"
      unfolding wellFormed_def by blast+
    have P: "?P = b - a" unfolding sl(1) using sl(3,4) by (rule length_take_drop)
    have "length ?bs = Suc b - a"
      unfolding sl(2) using sl(3,4) bl by (intro length_take_drop) simp_all
    then have bsl: "length ?bs = ?P + 1" unfolding P using sl(3) by simp
    have nth: "\<And>j. j \<le> ?P \<Longrightarrow> ?bs ! j = boundary data ! (a + j)"
      unfolding sl(2) P using sl(3,4) bl by (intro nth_take_drop) simp_all
    have "1 < length ?bs" using bsl Q by linarith
    then have at1: "at ?bs 1 = Some (?bs ! 1)" by (simp add: at_def)
    define m where "m = \<lparr>sliceString = ?ps, sliceBoundary = ?bs, word = t,
                startBoundary = fst (?bs ! 1), endBoundary = snd (?bs ! 1)\<rparr>"
    have m: "sliceString m = ?ps" "sliceBoundary m = ?bs" "word m = t"
      "startBoundary m = fst (?bs ! 1)"
      by (simp_all add: m_def)
    let ?mps = "matchPositionsFrom 0 ?ps t"
    have al: "alignedSlices m"
      unfolding alignedSlices_def m
    proof (intro conjI allI impI)
      fix i j assume "1 \<le> i \<and> i \<le> j \<and> j \<le> ?P"
      then have ij: "1 \<le> i" "i \<le> j" "j \<le> ?P" by simp_all
      then have "a + i \<le> a + j" "a + j < length (map fst (boundary data))"
        using P sl(3,4) bl by simp_all
      with so have "map fst (boundary data) ! (a + i) \<le> map fst (boundary data) ! (a + j)"
        by (simp only: sorted_iff_nth_mono)
      then show "fst (?bs ! i) \<le> fst (?bs ! j)"
        using ij nth [of i] nth [of j] P sl(3,4) bl by simp
    qed (simp_all add: bsl)
    have search: "searchByBoundaryMapping data t s e =
        (if length ?mps < ?Q then Some (Inr None)
         else (case scoringLoops m ?mps of
                 Inl err \<Rightarrow> Some (Inl err)
               | Inr st \<Rightarrow>
                   if dpMatchPath st ! ?P ! (?Q - 1) = None then Some (Inr None)
                   else map_option (map_sum id Some)
                          (backtrack (dpMatchPath st ! ?P) s (int ?Q - 1) [])))"
      using False at1 by (simp add: searchByBoundaryMapping_def Let_def m_def)
    show ?thesis
    proof (cases "length ?mps < ?Q")
      case True
      with search show ?thesis by simp
    next
      case False
      with matchPositionsFrom_length_le [of 0 ?ps t] have full: "length ?mps = ?Q" by simp
      from scoringLoops_inv [OF al, unfolded m] full
      obtain st where st: "scoringLoops m ?mps = Inr st" "arraysOK m st"
        "settled m (dpMatchPath st ! ?P)" by auto
      let ?row = "dpMatchPath st ! ?P"
      show ?thesis
      proof (cases "?row ! (?Q - 1) = None")
        case True
        with search st(1) False show ?thesis by simp
      next
        case cell: False
        from st(2) have "length ?row = ?Q" unfolding arraysOK_def m by simp
        then have "?Q - 1 < length ?row" using Q by linarith
        from st(3) [unfolded settled_def m, rule_format, OF this cell]
        have "chain (relChar m ?P) ?row (int (?Q - 1))" .
        moreover have "int (?Q - 1) = int ?Q - 1" using Q by linarith
        ultimately have "chain (relChar m ?P) ?row (int ?Q - 1)" by simp
        from backtrack_chain [OF this, of s "[]"]
        obtain hits where hits: "backtrack ?row s (int ?Q - 1) [] = Some (Inr hits)"
          "\<forall>x \<in> set hits. s \<le> fst x \<and> fst x \<le> snd x \<and> snd x \<le> relChar m ?P + s"
          by auto
        have P1: "1 \<le> ?P" using Q by simp
        have "s \<le> fst (boundary data ! Suc a) \<and> fst (boundary data ! Suc a) < e"
          using P P1 by (intro ch) simp_all
        moreover have "s \<le> fst (boundary data ! Suc (b - 1)) \<and> fst (boundary data ! Suc (b - 1)) < e"
          using P P1 by (intro ch) simp_all
        moreover have "relChar m ?P = fst (boundary data ! Suc (b - 1)) - fst (boundary data ! Suc a)"
        proof -
          have ab: "a < b" using P P1 by linarith
          then have "a + ?P = Suc (b - 1)" using P by linarith
          with nth [of ?P] nth [of 1] P1 have "?bs ! ?P = boundary data ! Suc (b - 1)"
            "?bs ! 1 = boundary data ! Suc a" by simp_all
          moreover have "0 < ?P" using P1 by linarith
          ultimately show ?thesis by (simp add: relChar_pos m)
        qed
        ultimately have "relChar m ?P + s < e" by simp
        with hits(2) have "\<forall>x \<in> set hits. s \<le> fst x \<and> fst x \<le> snd x \<and> snd x < e" by auto
        moreover have "searchByBoundaryMapping data t s e = Some (Inr (Some hits))"
          using search st(1) False cell hits(1) by simp
        ultimately show ?thesis by simp
      qed
    qed
  qed
qed

section \<open>The arrays keep their lengths\<close>

text \<open>
  Every write of the scoring loops is to an index inside the array written: the arrays
  have the lengths they are created with, one more than the length of the slice, and the
  rows of the path table have the length of the word, whereas the loops write at positions
  up to the length of the slice and at letters of the word.
\<close>

lemma sameShape_refl: "sameShape st st"
  by (simp add: sameShape_def)

lemma sameShape_trans: "sameShape st st1 \<Longrightarrow> sameShape st1 st2 \<Longrightarrow> sameShape st st2"
  by (simp add: sameShape_def)

lemma map_length_update: "(map length xs)[j := length (xs ! j)] = map length xs"
  by (metis list_update_id map_update)

lemma innerBody_shape:
  assumes "innerBody m k j st = Inr st'"
  shows "sameShape st st'"
  using assms
  by (auto simp: sameShape_def innerBody_def carryForward_def recordExtension_def Let_def map_update
           map_length_update split: option.splits if_splits prod.splits)

lemma forEach_shape:
  assumes run: "forEach body is st = Inr st'"
    and step: "\<And>i st st'. body i st = Inr st' \<Longrightarrow> sameShape st st'"
  shows "sameShape st st'"
  using run
proof (induction "is" arbitrary: st)
  case Nil
  then show ?case by (simp add: sameShape_refl)
next
  case (Cons i "is")
  from Cons.prems obtain st1 where st1: "body i st = Inr st1" "forEach body is st1 = Inr st'"
    by (auto split: sum.splits)
  from step [OF st1(1)] Cons.IH [OF st1(2)] show ?case by (rule sameShape_trans)
qed

lemma outerBody_shape:
  assumes "outerBody m matchPositions k st = Inr st'"
  shows "sameShape st st'"
proof -
  let ?i = "matchPositions ! k + 1 - 1"
  let ?st1 = "st\<lparr>currentDpTableItem := dpTable st ! ?i, currentScore := dpScores st ! ?i,
                  dpScores := (dpScores st)[?i := 0],
                  dpTable := (dpTable st)[?i := defaultDpTableValue]\<rparr>"
  have 1: "sameShape st ?st1" by (simp add: sameShape_def)
  have "forEach (innerBody m k) [matchPositions ! k + 1 ..< Suc (length (sliceString m))] ?st1 = Inr st'"
    using assms by (simp add: outerBody_def Let_def)
  then have "sameShape ?st1 st'" by (rule forEach_shape) (rule innerBody_shape)
  with 1 show ?thesis by (rule sameShape_trans)
qed

lemma scoringLoops_shape:
  assumes "scoringLoops m matchPositions = Inr st"
  shows "length (dpTable st) = length (sliceString m) + 1
         \<and> length (dpScores st) = length (sliceString m) + 1
         \<and> map length (dpMatchPath st) = replicate (length (sliceString m) + 1) (length (word m))"
proof -
  let ?st0 = "initialState (length (sliceString m)) (length (word m))"
  from assms have "forEach (outerBody m matchPositions) [0 ..< length matchPositions] ?st0 = Inr st"
    by (simp add: scoringLoops_def)
  then have "sameShape ?st0 st" by (rule forEach_shape) (rule outerBody_shape)
  then show ?thesis by (simp add: sameShape_def initialState_def)
qed

section \<open>Placing the words of a sentence\<close>

lemma restRuns_ranges:
  "r \<in> set (restRuns free is) \<Longrightarrow>
     fst r \<in> set is \<and> snd r \<in> set is \<and> fst r \<le> snd r \<and> (\<forall>x. fst r \<le> x \<and> x \<le> snd r \<longrightarrow> free x)"
proof (induction "is" arbitrary: r)
  case Nil
  then show ?case by simp
next
  case (Cons i "is")
  show ?case
  proof (cases "free i")
    case False
    with Cons show ?thesis by auto
  next
    case True
    show ?thesis
    proof (cases "restRuns free is")
      case Nil
      have "\<And>x. i \<le> x \<and> x \<le> i \<Longrightarrow> x = i" by linarith
      with Nil True Cons.prems show ?thesis by auto
    next
      case (Cons p rs)
      obtain s e where p: "p = (s, e)" by (cases p)
      from Cons.IH [of "(s, e)"] Cons p
      have se: "s \<in> set is" "e \<in> set is" "s \<le> e" "\<forall>x. s \<le> x \<and> x \<le> e \<longrightarrow> free x" by auto
      from Cons.IH Cons have rest: "\<And>r. r \<in> set rs \<Longrightarrow>
          fst r \<in> set is \<and> snd r \<in> set is \<and> fst r \<le> snd r \<and> (\<forall>x. fst r \<le> x \<and> x \<le> snd r \<longrightarrow> free x)"
        by auto
      show ?thesis
      proof (cases "s = i + 1")
        case True
        with \<open>free i\<close> Cons p Cons.prems have "r = (i, e) \<or> r \<in> set rs" by auto
        then show ?thesis
        proof
          assume r: "r = (i, e)"
          have "\<forall>x. i \<le> x \<and> x \<le> e \<longrightarrow> free x"
          proof (intro allI impI)
            fix x assume "i \<le> x \<and> x \<le> e"
            then have "x = i \<or> (s \<le> x \<and> x \<le> e)" using True by auto
            then show "free x" using \<open>free i\<close> se(4) by auto
          qed
          with r se True show ?thesis by auto
        next
          assume "r \<in> set rs"
          from rest [OF this] show ?thesis by auto
        qed
      next
        case False
        with \<open>free i\<close> Cons p Cons.prems have "r = (i, i) \<or> r = (s, e) \<or> r \<in> set rs" by auto
        then consider "r = (i, i)" | "r = (s, e)" | "r \<in> set rs" by blast
        then show ?thesis
        proof cases
          case 1
          have "\<And>x. i \<le> x \<and> x \<le> i \<Longrightarrow> x = i" by linarith
          with \<open>free i\<close> 1 show ?thesis by auto
        next
          case 2
          with se show ?thesis by simp
        next
          case 3
          from rest [OF this] show ?thesis by auto
        qed
      qed
    qed
  qed
qed

lemma complementRanges_contract: "restRangesContract complementRanges"
  unfolding restRangesContract_def
proof (intro allI ballI)
  fix totalLength claimed r
  assume "r \<in> set (complementRanges totalLength claimed)"
  then have r: "fst r \<in> set [0 .. totalLength - 1]" "snd r \<in> set [0 .. totalLength - 1]"
    "fst r \<le> snd r" "\<forall>x. fst r \<le> x \<and> x \<le> snd r \<longrightarrow> freeIndex claimed x"
    unfolding complementRanges_def by (auto dest: restRuns_ranges)
  have "\<forall>h \<in> set claimed. {fst r ..< snd r} \<inter> {fst h .. snd h} = {}"
  proof
    fix h assume h: "h \<in> set claimed"
    show "{fst r ..< snd r} \<inter> {fst h .. snd h} = {}"
    proof (rule ccontr)
      assume "{fst r ..< snd r} \<inter> {fst h .. snd h} \<noteq> {}"
      then obtain x where x: "fst r \<le> x" "x < snd r" "fst h \<le> x" "x \<le> snd h" by auto
      with r(4) have "freeIndex claimed x" by simp
      with h x(3,4) show False unfolding freeIndex_def by fastforce
    qed
  qed
  with r show "0 \<le> fst r \<and> fst r \<le> snd r \<and> snd r \<le> totalLength
        \<and> (\<forall>h \<in> set claimed. {fst r ..< snd r} \<inter> {fst h .. snd h} = {})"
    by simp
qed

lemma tryRanges_total:
  assumes wf: "wellFormed data"
    and rs: "\<forall>r \<in> set ranges. 0 \<le> fst r \<and> fst r \<le> snd r \<and> snd r \<le> originalLength data"
  shows "\<exists>res. tryRanges data w ranges = Some (Inr res)
           \<and> (\<forall>hits. res = Some hits \<longrightarrow>
                (\<exists>r \<in> set ranges. searchByBoundaryMapping data w (fst r) (snd r) = Some (Inr (Some hits))
                    \<and> (\<forall>x \<in> set hits. fst r \<le> fst x \<and> fst x \<le> snd x \<and> snd x < snd r)))"
  using rs
proof (induction ranges)
  case Nil
  then show ?case by simp
next
  case (Cons r ranges)
  then have r: "0 \<le> fst r" "fst r \<le> snd r" "snd r \<le> originalLength data" by simp_all
  from searchByBoundaryMapping_total [OF wf r, of w]
  obtain res where res: "searchByBoundaryMapping data w (fst r) (snd r) = Some (Inr res)"
    "\<forall>hits. res = Some hits \<longrightarrow> (\<forall>x \<in> set hits. fst r \<le> fst x \<and> fst x \<le> snd x \<and> snd x < snd r)"
    by blast
  show ?case
  proof (cases res)
    case None
    from Cons.IH Cons.prems
    obtain res' where "tryRanges data w ranges = Some (Inr res')"
      "\<forall>hits. res' = Some hits \<longrightarrow>
                (\<exists>r \<in> set ranges. searchByBoundaryMapping data w (fst r) (snd r) = Some (Inr (Some hits))
                    \<and> (\<forall>x \<in> set hits. fst r \<le> fst x \<and> fst x \<le> snd x \<and> snd x < snd r))"
      by auto
    with None res(1) show ?thesis by auto
  next
    case (Some hits)
    with res show ?thesis by auto
  qed
qed

lemma disjointRanges_sym: "disjointRanges r h \<Longrightarrow> disjointRanges h r"
  by (auto simp: disjointRanges_def)

lemma disjointRanges_inside:
  assumes "{fst r ..< snd r} \<inter> {fst h .. snd h} = {}" "fst r \<le> fst x" "snd x < snd r"
  shows "disjointRanges x h"
proof -
  have "{fst x .. snd x} \<subseteq> {fst r ..< snd r}" using assms(2,3) by auto
  with assms(1) show ?thesis unfolding disjointRanges_def by blast
qed

lemma placeWords_placed:
  assumes wf: "wellFormed data" and gr: "restRangesContract getRestRanges"
  shows "\<exists>res. placeWords getRestRanges data ws claimed = Some (Inr res)
           \<and> (\<forall>result. res = Some result \<longrightarrow>
                (\<exists>perWord. result = claimed @ concat perWord
                   \<and> placedBy getRestRanges data ws claimed perWord
                   \<and> (\<forall>i < length perWord. \<forall>x \<in> set (perWord ! i).
                         (\<forall>h \<in> set claimed. disjointRanges x h)
                         \<and> (\<forall>j < i. \<forall>h \<in> set (perWord ! j). disjointRanges x h))))"
proof (induction ws arbitrary: claimed)
  case Nil
  have "placedBy getRestRanges data [] claimed []" by (simp add: placedBy_def)
  then show ?case by (auto intro!: exI [of _ "[]"])
next
  case (Cons w ws)
  let ?rest = "getRestRanges (originalLength data) claimed"
  have valid: "\<forall>r \<in> set ?rest. 0 \<le> fst r \<and> fst r \<le> snd r \<and> snd r \<le> originalLength data"
    and free: "\<forall>r \<in> set ?rest. \<forall>h \<in> set claimed. {fst r ..< snd r} \<inter> {fst h .. snd h} = {}"
    using gr unfolding restRangesContract_def by blast+
  from tryRanges_total [OF wf valid, of w]
  obtain res1 where res1: "tryRanges data w ?rest = Some (Inr res1)"
    "\<forall>hits. res1 = Some hits \<longrightarrow>
       (\<exists>r \<in> set ?rest. searchByBoundaryMapping data w (fst r) (snd r) = Some (Inr (Some hits))
           \<and> (\<forall>x \<in> set hits. fst r \<le> fst x \<and> fst x \<le> snd x \<and> snd x < snd r))"
    by blast
  show ?case
  proof (cases "?rest = [] \<or> res1 = None")
    case True
    with res1(1) show ?thesis by (auto simp: Let_def)
  next
    case False
    then obtain hits where hits: "res1 = Some hits" and ne: "?rest \<noteq> []" by auto
    from res1(2) hits obtain r where r: "r \<in> set ?rest"
      "searchByBoundaryMapping data w (fst r) (snd r) = Some (Inr (Some hits))"
      "\<forall>x \<in> set hits. fst r \<le> fst x \<and> fst x \<le> snd x \<and> snd x < snd r" by blast
    have first: "\<forall>x \<in> set hits. \<forall>h \<in> set claimed. disjointRanges x h"
    proof (intro ballI)
      fix x h assume "x \<in> set hits" "h \<in> set claimed"
      with r(1,3) free show "disjointRanges x h" by (intro disjointRanges_inside [of r]) auto
    qed
    have step: "placeWords getRestRanges data (w # ws) claimed
                  = placeWords getRestRanges data ws (claimed @ hits)"
      using res1(1) hits ne by (simp add: Let_def)
    from Cons.IH [of "claimed @ hits"]
    obtain res where res: "placeWords getRestRanges data ws (claimed @ hits) = Some (Inr res)"
      "\<forall>result. res = Some result \<longrightarrow>
                (\<exists>perWord. result = (claimed @ hits) @ concat perWord
                   \<and> placedBy getRestRanges data ws (claimed @ hits) perWord
                   \<and> (\<forall>i < length perWord. \<forall>x \<in> set (perWord ! i).
                         (\<forall>h \<in> set (claimed @ hits). disjointRanges x h)
                         \<and> (\<forall>j < i. \<forall>h \<in> set (perWord ! j). disjointRanges x h)))"
      by blast
    have "\<forall>result. res = Some result \<longrightarrow>
                (\<exists>perWord. result = claimed @ concat perWord
                   \<and> placedBy getRestRanges data (w # ws) claimed perWord
                   \<and> (\<forall>i < length perWord. \<forall>x \<in> set (perWord ! i).
                         (\<forall>h \<in> set claimed. disjointRanges x h)
                         \<and> (\<forall>j < i. \<forall>h \<in> set (perWord ! j). disjointRanges x h)))"
    proof (intro allI impI)
      fix result assume "res = Some result"
      with res(2) obtain perWord where pw: "result = (claimed @ hits) @ concat perWord"
        "placedBy getRestRanges data ws (claimed @ hits) perWord"
        "\<forall>i < length perWord. \<forall>x \<in> set (perWord ! i).
            (\<forall>h \<in> set (claimed @ hits). disjointRanges x h)
            \<and> (\<forall>j < i. \<forall>h \<in> set (perWord ! j). disjointRanges x h)"
        by blast
      have a: "result = claimed @ concat (hits # perWord)" using pw(1) by simp
      have b: "placedBy getRestRanges data (w # ws) claimed (hits # perWord)"
        unfolding placedBy_def
      proof (intro conjI allI impI)
        show "length (hits # perWord) = length (w # ws)" using pw(2) by (simp add: placedBy_def)
      next
        fix i assume i: "i < length (w # ws)"
        show "\<exists>r \<in> set (getRestRanges (originalLength data) (claimed @ concat (take i (hits # perWord)))).
                searchByBoundaryMapping data ((w # ws) ! i) (fst r) (snd r)
                  = Some (Inr (Some ((hits # perWord) ! i)))"
        proof (cases i)
          case 0
          with r(1,2) show ?thesis by auto
        next
          case (Suc i')
          with i pw(2) show ?thesis by (simp add: placedBy_def)
        qed
      qed
      have c: "\<forall>i < length (hits # perWord). \<forall>x \<in> set ((hits # perWord) ! i).
                 (\<forall>h \<in> set claimed. disjointRanges x h)
                 \<and> (\<forall>j < i. \<forall>h \<in> set ((hits # perWord) ! j). disjointRanges x h)"
      proof (intro allI impI ballI)
        fix i x assume i: "i < length (hits # perWord)" and x: "x \<in> set ((hits # perWord) ! i)"
        show "(\<forall>h \<in> set claimed. disjointRanges x h)
                 \<and> (\<forall>j < i. \<forall>h \<in> set ((hits # perWord) ! j). disjointRanges x h)"
        proof (cases i)
          case 0
          with x first show ?thesis by simp
        next
          case (Suc i')
          with i x have i': "i' < length perWord" "x \<in> set (perWord ! i')" by simp_all
          with pw(3) have d: "\<forall>h \<in> set (claimed @ hits). disjointRanges x h"
            "\<forall>j < i'. \<forall>h \<in> set (perWord ! j). disjointRanges x h" by blast+
          have "\<forall>j < i. \<forall>h \<in> set ((hits # perWord) ! j). disjointRanges x h"
          proof (intro allI impI ballI)
            fix j h assume j: "j < i" and h: "h \<in> set ((hits # perWord) ! j)"
            show "disjointRanges x h"
            proof (cases j)
              case 0
              with h d(1) show ?thesis by simp
            next
              case (Suc j')
              with j h \<open>i = Suc i'\<close> d(2) show ?thesis by simp
            qed
          qed
          with d(1) show ?thesis by simp
        qed
      qed
      from a b c show "\<exists>perWord. result = claimed @ concat perWord
                   \<and> placedBy getRestRanges data (w # ws) claimed perWord
                   \<and> (\<forall>i < length perWord. \<forall>x \<in> set (perWord ! i).
                         (\<forall>h \<in> set claimed. disjointRanges x h)
                         \<and> (\<forall>j < i. \<forall>h \<in> set (perWord ! j). disjointRanges x h))"
        by blast
    qed
    with step res(1) show ?thesis by simp
  qed
qed

lemma placeWords_append:
  "placeWords getRestRanges data before claimed0 = Some (Inr (Some claimed))
   \<Longrightarrow> placeWords getRestRanges data (before @ after) claimed0
         = placeWords getRestRanges data after claimed"
proof (induction before arbitrary: claimed0)
  case Nil
  then show ?case by simp
next
  case (Cons w ws)
  then show ?case
    by (auto simp: Let_def split: if_splits option.splits sum.splits)
qed

section \<open>The claims about the matcher and the sentence\<close>

lemma matchPositionsFrom_subseq:
  "length (matchPositionsFrom i p t) = length t \<longleftrightarrow> subseq t p"
proof (induction i p t rule: matchPositionsFrom.induct)
  case (3 i c cs t ts)
  show ?case
  proof (cases "c = t")
    case True
    with 3 show ?thesis by simp
  next
    case False
    with 3 show ?thesis by auto
  qed
qed auto

lemma wellFormed_identity: "wellFormed (identityMapping (js ''no_node''))"
  by (simp add: wellFormed_def identityMapping_def js_def upt_rec)

text \<open>
  Claim C3. For well-formed data, a sub-range \<open>[startIndex, endIndex]\<close> of the source and
  a word that is not a subsequence of the transliteration slice of the sub-range, the
  greedy pass fills fewer positions than the word has letters, and
  \<open>searchByBoundaryMapping\<close> returns no-match; the result is decided at line 33, before
  the scoring loops.
\<close>

theorem not_subsequence_no_match:
  assumes "wellFormed data" and "0 \<le> startIndex" and "startIndex \<le> endIndex"
    and "endIndex \<le> originalLength data"
    and "\<not> subseq target (pinyinSlice data startIndex endIndex)"
  shows "length (matchPositionsFrom 0 (pinyinSlice data startIndex endIndex) target) < length target
         \<and> searchByBoundaryMapping data target startIndex endIndex = Some (Inr None)"
proof -
  let ?ps = "pinyinSlice data startIndex endIndex"
  have short: "length (matchPositionsFrom 0 ?ps target) < length target"
    using assms(5) matchPositionsFrom_subseq [of 0 ?ps target]
      matchPositionsFrom_length_le [of 0 ?ps target] by simp
  from searchByBoundaryMapping_total [OF assms(1-4), of target]
  obtain res where res: "searchByBoundaryMapping data target startIndex endIndex = Some (Inr res)"
    by blast
  have "res = None"
    using res short
    by (auto simp: searchByBoundaryMapping_def Let_def split: if_splits option.splits sum.splits)
  with res short show ?thesis by simp
qed

text \<open>The word \<open>dn\<close> is not a subsequence of \<open>no_node\<close>.\<close>

theorem not_subsequence_no_match_witness:
  "wellFormed (identityMapping (js ''no_node'')) \<and> (0::int) \<le> 0 \<and> (0::int) \<le> 7
   \<and> 7 \<le> originalLength (identityMapping (js ''no_node''))
   \<and> \<not> subseq (js ''dn'') (pinyinSlice (identityMapping (js ''no_node'')) 0 7)
   \<and> length (matchPositionsFrom 0 (pinyinSlice (identityMapping (js ''no_node'')) 0 7) (js ''dn''))
        < length (js ''dn'')
   \<and> searchByBoundaryMapping (identityMapping (js ''no_node'')) (js ''dn'') 0 7 = Some (Inr None)"
proof -
  have 1: "wellFormed (identityMapping (js ''no_node''))" by (rule wellFormed_identity)
  have 2: "(0::int) \<le> 0" "(0::int) \<le> 7" by simp_all
  have 3: "7 \<le> originalLength (identityMapping (js ''no_node''))"
    by (simp add: identityMapping_def js_def)
  have ps: "pinyinSlice (identityMapping (js ''no_node'')) 0 7 = js ''no_node''"
    by (simp add: pinyinSlice_def identityMapping_def js_def at_def slice_def relIndex_def upt_rec)
  have 4: "\<not> subseq (js ''dn'') (pinyinSlice (identityMapping (js ''no_node'')) 0 7)"
    unfolding ps by (simp add: js_def)
  from not_subsequence_no_match [OF 1 2 3 4] 1 2 3 4 show ?thesis by blast
qed

text \<open>
  Claim C10. For well-formed data and a sub-range \<open>[startIndex, endIndex]\<close> of the source,
  every range \<open>[s, e]\<close> of a matrix that \<open>searchByBoundaryMapping\<close> returns satisfies
  \<open>startIndex \<le> s\<close>, \<open>s \<le> e\<close> and \<open>e \<le> endIndex\<close>.
\<close>

theorem ranges_within_subrange:
  assumes "wellFormed data" and "0 \<le> startIndex" and "startIndex \<le> endIndex"
    and "endIndex \<le> originalLength data"
    and "searchByBoundaryMapping data w startIndex endIndex = Some (Inr (Some hitIndices))"
    and "r \<in> set hitIndices"
  shows "startIndex \<le> fst r \<and> fst r \<le> snd r \<and> snd r \<le> endIndex"
proof -
  from searchByBoundaryMapping_total [OF assms(1-4), of w] assms(5)
  have "\<forall>x \<in> set hitIndices. startIndex \<le> fst x \<and> fst x \<le> snd x \<and> snd x < endIndex"
    by auto
  with assms(6) show ?thesis by fastforce
qed

lemma search_no_node: 
  "searchByBoundaryMapping (identityMapping (js ''no_node'')) (js ''nod'') 0 7 = Some (Inr (Some [(3, 5)]))"
  by code_simp

text \<open>The word \<open>nod\<close> in \<open>no_node\<close>, searched in the whole source.\<close>

theorem ranges_within_subrange_witness:
  "wellFormed (identityMapping (js ''no_node'')) \<and> (0::int) \<le> 0 \<and> (0::int) \<le> 7
   \<and> 7 \<le> originalLength (identityMapping (js ''no_node''))
   \<and> searchByBoundaryMapping (identityMapping (js ''no_node'')) (js ''nod'') 0 7
        = Some (Inr (Some [(3, 5)]))
   \<and> (3, 5) \<in> set [(3, 5) :: int \<times> int]
   \<and> (0::int) \<le> fst (3 :: int, 5 :: int) \<and> fst (3 :: int, 5 :: int) \<le> snd (3 :: int, 5 :: int)
   \<and> snd (3 :: int, 5 :: int) \<le> (7::int)"
proof -
  have 1: "wellFormed (identityMapping (js ''no_node''))" by (rule wellFormed_identity)
  have 2: "(0::int) \<le> 0" "(0::int) \<le> 7" by simp_all
  have 3: "7 \<le> originalLength (identityMapping (js ''no_node''))"
    by (simp add: identityMapping_def js_def)
  have 4: "searchByBoundaryMapping (identityMapping (js ''no_node'')) (js ''nod'') 0 7
        = Some (Inr (Some [(3, 5)]))" by (rule search_no_node)
  have 5: "(3, 5) \<in> set [(3, 5) :: int \<times> int]" by simp
  from ranges_within_subrange [OF 1 2 3 4 5] 1 2 3 4 5 show ?thesis by blast
qed

lemma searchSentence_total:
  assumes wf: "wellFormed data" and gr: "restRangesContract getRestRanges"
  shows "\<exists>res. searchSentenceByBoundaryMapping getRestRanges data sentence = Some (Inr res)"
proof -
  from placeWords_placed [OF wf gr, of "splitWhiteSpace (trim sentence)" "[]"]
  obtain res where "placeWords getRestRanges data (splitWhiteSpace (trim sentence)) [] = Some (Inr res)"
    by blast
  then show ?thesis
    by (auto simp: searchSentenceByBoundaryMapping_def split: option.splits)
qed

text \<open>
  Claim C9. For well-formed data, and a \<open>getRestRanges\<close> that meets its contract, every
  query makes \<open>searchByBoundaryMapping\<close> (on every sub-range of the source),
  \<open>searchSentenceByBoundaryMapping\<close> and \<open>searchEntry\<close> (with a provider that gives
  the data) return a value, a matrix or no-match: none of them throws and none of them
  runs forever. In the model an exception is the result of reading an absent boundary
  entry or an absent path cell, and not returning is the result of the backtracking loop.
\<close>

theorem search_returns_normally:
  assumes "wellFormed data" and "restRangesContract getRestRanges"
  shows "(\<forall>startIndex endIndex. 0 \<le> startIndex \<and> startIndex \<le> endIndex \<and> endIndex \<le> originalLength data
            \<longrightarrow> (\<exists>res. searchByBoundaryMapping data query startIndex endIndex = Some (Inr res)))
         \<and> (\<exists>res. searchSentenceByBoundaryMapping getRestRanges data query = Some (Inr res))
         \<and> (getBoundaryMapping source = data
              \<longrightarrow> (\<exists>res. searchEntry getRestRanges source query getBoundaryMapping = Some (Inr res)))"
proof (intro conjI allI impI)
  fix startIndex endIndex
  assume "0 \<le> startIndex \<and> startIndex \<le> endIndex \<and> endIndex \<le> originalLength data"
  then have r: "0 \<le> startIndex" "startIndex \<le> endIndex" "endIndex \<le> originalLength data"
    by simp_all
  from searchByBoundaryMapping_total [OF assms(1) r, of query]
  show "\<exists>res. searchByBoundaryMapping data query startIndex endIndex = Some (Inr res)" by blast
next
  show "\<exists>res. searchSentenceByBoundaryMapping getRestRanges data query = Some (Inr res)"
    using assms by (rule searchSentence_total)
next
  assume "getBoundaryMapping source = data"
  with searchSentence_total [OF assms, of query]
  show "\<exists>res. searchEntry getRestRanges source query getBoundaryMapping = Some (Inr res)"
    by (auto simp: searchEntry_def split: option.splits)
qed

lemma sentence_no_od:
  "searchSentenceByBoundaryMapping complementRanges (identityMapping (js ''no_node'')) (js ''no od'')
     = Some (Inr (Some [(0, 1), (4, 5)]))"
  by code_simp

lemma entry_no_od:
  "searchEntry complementRanges (js ''no_node'') (js ''no od'') identityMapping
     = Some (Inr (Some [(0, 1), (4, 5)]))"
  by code_simp

lemma search_od:
  "searchByBoundaryMapping (identityMapping (js ''no_node'')) (js ''no od'') 0 7 = Some (Inr None)"
  by code_simp

text \<open>The query \<open>no od\<close> on \<open>no_node\<close>.\<close>

theorem search_returns_normally_witness:
  "wellFormed (identityMapping (js ''no_node'')) \<and> restRangesContract complementRanges
   \<and> (0::int) \<le> 0 \<and> (0::int) \<le> 7 \<and> 7 \<le> originalLength (identityMapping (js ''no_node''))
   \<and> searchByBoundaryMapping (identityMapping (js ''no_node'')) (js ''no od'') 0 7 = Some (Inr None)
   \<and> searchSentenceByBoundaryMapping complementRanges (identityMapping (js ''no_node'')) (js ''no od'')
        = Some (Inr (Some [(0, 1), (4, 5)]))
   \<and> searchEntry complementRanges (js ''no_node'') (js ''no od'') identityMapping
        = Some (Inr (Some [(0, 1), (4, 5)]))
   \<and> (\<exists>res. searchByBoundaryMapping (identityMapping (js ''no_node'')) (js ''no od'') 0 7 = Some (Inr res))
   \<and> (\<exists>res. searchSentenceByBoundaryMapping complementRanges (identityMapping (js ''no_node''))
               (js ''no od'') = Some (Inr res))
   \<and> (\<exists>res. searchEntry complementRanges (js ''no_node'') (js ''no od'') identityMapping
               = Some (Inr res))"
proof -
  have 1: "wellFormed (identityMapping (js ''no_node''))" by (rule wellFormed_identity)
  have 2: "restRangesContract complementRanges" by (rule complementRanges_contract)
  have 3: "(0::int) \<le> 0 \<and> (0::int) \<le> 7 \<and> 7 \<le> originalLength (identityMapping (js ''no_node''))"
    by (simp add: identityMapping_def js_def)
  from search_returns_normally [OF 1 2, of "js ''no od''" identityMapping "js ''no_node''"] 3
  have "(\<exists>res. searchByBoundaryMapping (identityMapping (js ''no_node'')) (js ''no od'') 0 7 = Some (Inr res))
   \<and> (\<exists>res. searchSentenceByBoundaryMapping complementRanges (identityMapping (js ''no_node''))
               (js ''no od'') = Some (Inr res))
   \<and> (\<exists>res. searchEntry complementRanges (js ''no_node'') (js ''no od'') identityMapping
               = Some (Inr res))"
    by blast
  with 1 2 3 search_od sentence_no_od entry_no_od show ?thesis by blast
qed

text \<open>
  Claim C4. For well-formed data and a \<open>getRestRanges\<close> that meets its contract: when
  \<open>searchSentenceByBoundaryMapping\<close> returns a matrix, this is the single range of the
  literal search, or it is the concatenation of the ranges assigned to the words in
  order, every word being placed by \<open>searchByBoundaryMapping\<close> in one of the ranges left
  by the words before it, and the ranges of two different words are disjoint. And when
  the literal search fails and some word, the words before it being placed, finds no
  place in any of the ranges left, the whole call returns no-match.
\<close>

theorem words_placed_disjoint:
  assumes "wellFormed data" and "restRangesContract getRestRanges"
  shows "(\<forall>result. searchSentenceByBoundaryMapping getRestRanges data sentence = Some (Inr (Some result))
            \<longrightarrow> searchWithIndexof (originalString data) sentence = Some result
                \<or> (\<exists>perWord. result = concat perWord
                      \<and> placedBy getRestRanges data (splitWhiteSpace (trim sentence)) [] perWord
                      \<and> (\<forall>i j. i < j \<and> j < length perWord \<longrightarrow>
                            (\<forall>r \<in> set (perWord ! i). \<forall>r' \<in> set (perWord ! j). disjointRanges r r'))))
         \<and> (\<forall>before w after claimed.
               sentence \<noteq> [] \<and> searchWithIndexof (originalString data) sentence = None
               \<and> splitWhiteSpace (trim sentence) = before @ w # after
               \<and> placeWords getRestRanges data before [] = Some (Inr (Some claimed))
               \<and> tryRanges data w (getRestRanges (originalLength data) claimed) = Some (Inr None)
               \<longrightarrow> searchSentenceByBoundaryMapping getRestRanges data sentence = Some (Inr None))"
proof (intro conjI allI impI)
  fix result
  assume ret: "searchSentenceByBoundaryMapping getRestRanges data sentence = Some (Inr (Some result))"
  let ?ws = "splitWhiteSpace (trim sentence)"
  show "searchWithIndexof (originalString data) sentence = Some result
          \<or> (\<exists>perWord. result = concat perWord \<and> placedBy getRestRanges data ?ws [] perWord
                \<and> (\<forall>i j. i < j \<and> j < length perWord \<longrightarrow>
                      (\<forall>r \<in> set (perWord ! i). \<forall>r' \<in> set (perWord ! j). disjointRanges r r')))"
  proof (cases "searchWithIndexof (originalString data) sentence")
    case (Some hit)
    with ret have "hit = result"
      by (simp add: searchSentenceByBoundaryMapping_def split: if_splits)
    with Some have "searchWithIndexof (originalString data) sentence = Some result" by simp
    then show ?thesis by (rule disjI1)
  next
    case None
    with ret have pl: "placeWords getRestRanges data ?ws [] = Some (Inr (Some result))"
      by (simp add: searchSentenceByBoundaryMapping_def split: if_splits)
    from placeWords_placed [OF assms, of ?ws "[]"]
    obtain res where res: "placeWords getRestRanges data ?ws [] = Some (Inr res)"
      and all: "\<forall>result. res = Some result \<longrightarrow>
                (\<exists>perWord. result = [] @ concat perWord
                   \<and> placedBy getRestRanges data ?ws [] perWord
                   \<and> (\<forall>i < length perWord. \<forall>x \<in> set (perWord ! i).
                         (\<forall>h \<in> set []. disjointRanges x h)
                         \<and> (\<forall>j < i. \<forall>h \<in> set (perWord ! j). disjointRanges x h)))"
      by (elim exE conjE)
    from res pl have "res = Some result" by simp
    from all [rule_format, OF this]
    obtain perWord where pw: "result = [] @ concat perWord"
      "placedBy getRestRanges data ?ws [] perWord"
      "\<forall>i < length perWord. \<forall>x \<in> set (perWord ! i).
          (\<forall>h \<in> set []. disjointRanges x h)
          \<and> (\<forall>j < i. \<forall>h \<in> set (perWord ! j). disjointRanges x h)"
      by (elim exE conjE)
    have "\<forall>i j. i < j \<and> j < length perWord \<longrightarrow>
            (\<forall>r \<in> set (perWord ! i). \<forall>r' \<in> set (perWord ! j). disjointRanges r r')"
    proof (intro allI impI ballI)
      fix i j r r' assume ij: "i < j \<and> j < length perWord"
        and r: "r \<in> set (perWord ! i)" and r': "r' \<in> set (perWord ! j)"
      from ij have j: "j < length perWord" and i: "i < j" by simp_all
      from pw(3) [rule_format, OF j r'] have "\<forall>j' < j. \<forall>h \<in> set (perWord ! j'). disjointRanges r' h"
        by (rule conjunct2)
      from this [rule_format, OF i r] show "disjointRanges r r'" by (rule disjointRanges_sym)
    qed
    moreover from pw(1) have "result = concat perWord" by simp
    ultimately have "\<exists>perWord. result = concat perWord \<and> placedBy getRestRanges data ?ws [] perWord
                \<and> (\<forall>i j. i < j \<and> j < length perWord \<longrightarrow>
                      (\<forall>r \<in> set (perWord ! i). \<forall>r' \<in> set (perWord ! j). disjointRanges r r'))"
      using pw(2) by (intro exI [of _ perWord] conjI)
    then show ?thesis by (rule disjI2)
  qed
next
  fix before w after claimed
  assume a: "sentence \<noteq> [] \<and> searchWithIndexof (originalString data) sentence = None
               \<and> splitWhiteSpace (trim sentence) = before @ w # after
               \<and> placeWords getRestRanges data before [] = Some (Inr (Some claimed))
               \<and> tryRanges data w (getRestRanges (originalLength data) claimed) = Some (Inr None)"
  then have "placeWords getRestRanges data (before @ w # after) []
               = placeWords getRestRanges data (w # after) claimed"
    by (intro placeWords_append) simp
  moreover have "placeWords getRestRanges data (w # after) claimed = Some (Inr None)"
    using a by (simp add: Let_def)
  ultimately show "searchSentenceByBoundaryMapping getRestRanges data sentence = Some (Inr None)"
    using a by (simp add: searchSentenceByBoundaryMapping_def)
qed

lemma sentence_no_xd:
  "js ''no xd'' \<noteq> []
   \<and> searchWithIndexof (originalString (identityMapping (js ''no_node''))) (js ''no xd'') = None
   \<and> splitWhiteSpace (trim (js ''no xd'')) = [js ''no''] @ js ''xd'' # []
   \<and> placeWords complementRanges (identityMapping (js ''no_node'')) [js ''no''] [] = Some (Inr (Some [(0, 1)]))
   \<and> tryRanges (identityMapping (js ''no_node'')) (js ''xd'')
        (complementRanges (originalLength (identityMapping (js ''no_node''))) [(0, 1)]) = Some (Inr None)"
  by code_simp

lemma literal_no_od:
  "searchWithIndexof (originalString (identityMapping (js ''no_node''))) (js ''no od'') \<noteq> Some [(0, 1), (4, 5)]"
  by code_simp

text \<open>
  The query \<open>no od\<close> on \<open>no_node\<close> is placed in the ranges \<open>[0, 1]\<close> and
  \<open>[4, 5]\<close>; in the query \<open>no xd\<close> the second word finds no place.
\<close>

theorem words_placed_disjoint_witness:
  "wellFormed (identityMapping (js ''no_node'')) \<and> restRangesContract complementRanges
   \<and> searchSentenceByBoundaryMapping complementRanges (identityMapping (js ''no_node'')) (js ''no od'')
        = Some (Inr (Some [(0, 1), (4, 5)]))
   \<and> (\<exists>perWord. [(0, 1), (4, 5)] = concat perWord
          \<and> placedBy complementRanges (identityMapping (js ''no_node''))
               (splitWhiteSpace (trim (js ''no od''))) [] perWord
          \<and> (\<forall>i j. i < j \<and> j < length perWord \<longrightarrow>
                (\<forall>r \<in> set (perWord ! i). \<forall>r' \<in> set (perWord ! j). disjointRanges r r')))
   \<and> js ''no xd'' \<noteq> []
   \<and> searchWithIndexof (originalString (identityMapping (js ''no_node''))) (js ''no xd'') = None
   \<and> splitWhiteSpace (trim (js ''no xd'')) = [js ''no''] @ js ''xd'' # []
   \<and> placeWords complementRanges (identityMapping (js ''no_node'')) [js ''no''] [] = Some (Inr (Some [(0, 1)]))
   \<and> tryRanges (identityMapping (js ''no_node'')) (js ''xd'')
        (complementRanges (originalLength (identityMapping (js ''no_node''))) [(0, 1)]) = Some (Inr None)
   \<and> searchSentenceByBoundaryMapping complementRanges (identityMapping (js ''no_node'')) (js ''no xd'')
        = Some (Inr None)"
proof -
  have 1: "wellFormed (identityMapping (js ''no_node''))" by (rule wellFormed_identity)
  have 2: "restRangesContract complementRanges" by (rule complementRanges_contract)
  note t = words_placed_disjoint [OF 1 2, of "js ''no od''", THEN conjunct1, rule_format,
      OF sentence_no_od]
  have a: "\<exists>perWord. [(0, 1), (4, 5)] = concat perWord
          \<and> placedBy complementRanges (identityMapping (js ''no_node''))
               (splitWhiteSpace (trim (js ''no od''))) [] perWord
          \<and> (\<forall>i j. i < j \<and> j < length perWord \<longrightarrow>
                (\<forall>r \<in> set (perWord ! i). \<forall>r' \<in> set (perWord ! j). disjointRanges r r'))"
    by (rule disjE [OF t]) (simp add: literal_no_od, assumption)
  note b = words_placed_disjoint [OF 1 2, of "js ''no xd''", THEN conjunct2, rule_format,
      of "[js ''no'']" "js ''xd''" "[]" "[(0, 1)]", OF sentence_no_xd]
  show ?thesis
    by (intro conjI 1 2 sentence_no_od a b sentence_no_xd [THEN conjunct1]
          sentence_no_xd [THEN conjunct2, THEN conjunct1]
          sentence_no_xd [THEN conjunct2, THEN conjunct2, THEN conjunct1]
          sentence_no_xd [THEN conjunct2, THEN conjunct2, THEN conjunct2, THEN conjunct1]
          sentence_no_xd [THEN conjunct2, THEN conjunct2, THEN conjunct2, THEN conjunct2])
qed

section \<open>The claims about one step of the scoring loops\<close>

text \<open>
  Claim C5. In a step of the scoring loops at which the position is accepted as an
  extension (the test of line 87 holds), the new score is the score of the predecessor
  plus twice its count of matched letters plus one; for a letter after the first, the
  score of the predecessor is positive; and when the new score is not below the score
  recorded at the previous position, the step stores it as the score of the position.
\<close>

theorem extension_score:
  assumes "at (sliceBoundary m) (int j) = Some b"
    and "currentDpTableItem st = (prevMatchedStrings, prevMatchedLetters, prevBoundaryStart, prevBoundaryEnd)"
    and "eligible m k j b (currentDpTableItem st) (currentScore st)"
    and "j < length (dpScores st)"
  shows "extendedScore (currentDpTableItem st) (currentScore st)
           = currentScore st + (2 * prevMatchedLetters + 1)
         \<and> (0 < k \<longrightarrow> 0 < currentScore st)
         \<and> (dpScores st ! (j - 1) \<le> currentScore st + (2 * prevMatchedLetters + 1)
              \<longrightarrow> (\<exists>st'. innerBody m k j st = Inr st'
                     \<and> dpScores st' ! j = currentScore st + (2 * prevMatchedLetters + 1)))"
proof (intro conjI impI)
  show e: "extendedScore (currentDpTableItem st) (currentScore st)
           = currentScore st + (2 * prevMatchedLetters + 1)"
    using assms(2) by (simp add: extendedScore_def)
  show "0 < currentScore st" if "0 < k"
    using assms(3) that by (simp add: eligible_def)
  show "\<exists>st'. innerBody m k j st = Inr st'
          \<and> dpScores st' ! j = currentScore st + (2 * prevMatchedLetters + 1)"
    if "dpScores st ! (j - 1) \<le> currentScore st + (2 * prevMatchedLetters + 1)"
    using assms that e
    by (simp add: innerBody_def Let_def recordExtension_def)
qed

text \<open>The second letter of \<open>nod\<close> at the second position of \<open>no_node\<close>.\<close>

theorem extension_score_witness:
  "at (sliceBoundary exampleMatcher) (int 2) = Some (1, 2)
   \<and> currentDpTableItem exampleState = (1, 1, 0, 0)
   \<and> eligible exampleMatcher 1 2 (1, 2) (currentDpTableItem exampleState) (currentScore exampleState)
   \<and> 2 < length (dpScores exampleState)
   \<and> extendedScore (currentDpTableItem exampleState) (currentScore exampleState) = 4
   \<and> (0::nat) < 1 \<and> 0 < currentScore exampleState
   \<and> dpScores exampleState ! (2 - 1) \<le> 4
   \<and> (\<exists>st'. innerBody exampleMatcher 1 2 exampleState = Inr st' \<and> dpScores st' ! 2 = 4)"
proof -
  have 1: "at (sliceBoundary exampleMatcher) (int 2) = Some (1, 2)"
    by (simp add: exampleMatcher_def identityMapping_def js_def at_def upt_rec)
  have 2: "currentDpTableItem exampleState = (1, 1, 0, 0)"
    by (simp add: exampleState_def)
  have 3: "eligible exampleMatcher 1 2 (1, 2) (currentDpTableItem exampleState) (currentScore exampleState)"
    by (simp add: eligible_def isEqual_def isNewWord_def exampleMatcher_def exampleState_def js_def at_def)
  have 4: "2 < length (dpScores exampleState)"
    by (simp add: exampleState_def initialState_def)
  have 5: "dpScores exampleState ! (2 - 1) \<le> 4"
    by (simp add: exampleState_def initialState_def)
  have 6: "currentScore exampleState = 1" by (simp add: exampleState_def)
  from extension_score [OF 1 2 3 4] 5 6
  have "extendedScore (currentDpTableItem exampleState) (currentScore exampleState) = 4
   \<and> 0 < currentScore exampleState
   \<and> (\<exists>st'. innerBody exampleMatcher 1 2 exampleState = Inr st' \<and> dpScores st' ! 2 = 4)"
    by simp
  with 1 2 3 4 5 show ?thesis by simp
qed

text \<open>
  Claim C6. After a step of the scoring loops, the score of the position is the newly
  computed score only if the position is accepted and that score is greater than or equal
  to the score recorded so far, which the loop carries at the previous position;
  otherwise it is the score recorded so far. The path cell of the position is a new cell
  only if the position is accepted and the new score is strictly greater; otherwise, and
  so when the scores are equal, it is the path cell found earlier, carried from the
  previous position.
\<close>

theorem best_score_and_path:
  assumes "innerBody m k j st = Inr st'"
    and "at (sliceBoundary m) (int j) = Some b"
    and "currentDpTableItem st = (prevMatchedStrings, prevMatchedLetters, prevBoundaryStart, prevBoundaryEnd)"
    and "j < length (dpScores st)" and "j < length (dpMatchPath st)"
    and "k < length (dpMatchPath st ! j)"
  shows "dpScores st' ! j =
           (if eligible m k j b (currentDpTableItem st) (currentScore st)
               \<and> dpScores st ! (j - 1) \<le> extendedScore (currentDpTableItem st) (currentScore st)
            then extendedScore (currentDpTableItem st) (currentScore st)
            else dpScores st ! (j - 1))
         \<and> dpMatchPath st' ! j ! k =
           (if eligible m k j b (currentDpTableItem st) (currentScore st)
               \<and> dpScores st ! (j - 1) < extendedScore (currentDpTableItem st) (currentScore st)
            then Some (fst b - startBoundary m - prevMatchedStrings
                         + (if isNewWord m j b (currentDpTableItem st) then 0 else 1),
                       fst b - startBoundary m, prevMatchedLetters + 1)
            else dpMatchPath st ! (j - 1) ! k)"
proof -
  let ?st1 = "st\<lparr>currentDpTableItem := dpTable st ! j, currentScore := dpScores st ! j\<rparr>"
  let ?new = "extendedScore (currentDpTableItem st) (currentScore st)"
  have ib: "innerBody m k j st =
      (if eligible m k j b (currentDpTableItem st) (currentScore st) \<and> dpScores st ! (j - 1) \<le> ?new
       then Inr (recordExtension m k j b (currentDpTableItem st) ?new ?st1)
       else carryForward m k j b ?st1)"
    using assms(2) by (simp add: innerBody_def Let_def)
  show ?thesis
  proof (cases "eligible m k j b (currentDpTableItem st) (currentScore st) \<and> dpScores st ! (j - 1) \<le> ?new")
    case True
    then have "innerBody m k j st = Inr (recordExtension m k j b (currentDpTableItem st) ?new ?st1)"
      unfolding ib by (rule if_P)
    with assms(1) have "st' = recordExtension m k j b (currentDpTableItem st) ?new ?st1" by simp
    then show ?thesis
      using True assms(3-6) by (auto simp: recordExtension_def Let_def)
  next
    case False
    then have "innerBody m k j st = carryForward m k j b ?st1"
      unfolding ib by (rule if_not_P)
    with assms(1) have "carryForward m k j b ?st1 = Inr st'" by simp
    then have "dpScores st' ! j = dpScores st ! (j - 1)
               \<and> dpMatchPath st' ! j ! k = dpMatchPath st ! (j - 1) ! k"
      using assms(4-6)
      by (auto simp: carryForward_def Let_def split: if_splits option.splits)
    with False show ?thesis by auto
  qed
qed

lemma example_step: "innerBody exampleMatcher 1 2 exampleState = Inr exampleNext"
  by code_simp

text \<open>The same step: the score 4 replaces 0 and a new path cell is written.\<close>

theorem best_score_and_path_witness:
  "innerBody exampleMatcher 1 2 exampleState = Inr exampleNext
   \<and> at (sliceBoundary exampleMatcher) (int 2) = Some (1, 2)
   \<and> currentDpTableItem exampleState = (1, 1, 0, 0)
   \<and> 2 < length (dpScores exampleState) \<and> 2 < length (dpMatchPath exampleState)
   \<and> 1 < length (dpMatchPath exampleState ! 2)
   \<and> eligible exampleMatcher 1 2 (1, 2) (currentDpTableItem exampleState) (currentScore exampleState)
   \<and> dpScores exampleState ! (2 - 1) < extendedScore (currentDpTableItem exampleState) (currentScore exampleState)
   \<and> dpScores exampleNext ! 2 = 4
   \<and> dpMatchPath exampleNext ! 2 ! 1 = Some (0, 1, 2)"
proof -
  have 1: "at (sliceBoundary exampleMatcher) (int 2) = Some (1, 2)"
    by (simp add: exampleMatcher_def identityMapping_def js_def at_def upt_rec)
  have 2: "currentDpTableItem exampleState = (1, 1, 0, 0)"
    by (simp add: exampleState_def)
  have 3: "eligible exampleMatcher 1 2 (1, 2) (currentDpTableItem exampleState) (currentScore exampleState)"
    by (simp add: eligible_def isEqual_def isNewWord_def exampleMatcher_def exampleState_def js_def at_def)
  have 4: "2 < length (dpScores exampleState)" "2 < length (dpMatchPath exampleState)"
    "1 < length (dpMatchPath exampleState ! 2)"
    by (simp_all add: exampleState_def initialState_def)
  have 5: "dpScores exampleState ! (2 - 1) < extendedScore (currentDpTableItem exampleState) (currentScore exampleState)"
    by (simp add: exampleState_def initialState_def extendedScore_def)
  have 6: "extendedScore (currentDpTableItem exampleState) (currentScore exampleState) = 4"
    by (simp add: exampleState_def extendedScore_def)
  have 7: "isNewWord exampleMatcher 2 (1, 2) (currentDpTableItem exampleState)"
    by (simp add: isNewWord_def exampleMatcher_def exampleState_def)
  have 8: "startBoundary exampleMatcher = 0" by (simp add: exampleMatcher_def)
  from best_score_and_path [OF example_step 1 2 4] 3 5 6 7 8
  have "dpScores exampleNext ! 2 = 4 \<and> dpMatchPath exampleNext ! 2 ! 1 = Some (0, 1, 2)"
    by simp
  with example_step 1 2 3 4 5 show ?thesis by simp
qed

text \<open>
  The guard of the continuation test: a position that belongs to the character of the
  predecessor item and to another reading than the one the item records is not accepted.
\<close>

lemma competing_reading_not_eligible:
  assumes "fst b - startBoundary m = prevBoundaryStart"
    and "snd b - endBoundary m \<noteq> prevBoundaryEnd"
  shows "\<not> eligible m k j b (prevMatchedStrings, prevMatchedLetters, prevBoundaryStart, prevBoundaryEnd) prevScore"
  using assms by (auto simp: eligible_def isNewWord_def isContinuation_def)

text \<open>The source \<open>twoReadings\<close> meets the invariants of section 3 of the spec.\<close>

lemma twoReadings_wellFormed: "wellFormed twoReadings"
  by (simp add: wellFormed_def twoReadings_def js_def)

text \<open>
  In the call for \<open>twoReadings\<close>, the word \<open>ccb\<close> and the whole source, the slices are
  the whole tables, the first pass finds the letters at the positions 0, 3 and 5, and the
  scoring loops end in the state \<open>twoReadingsFinal\<close>. The last row of its path table
  holds, for the second letter, the cell \<open>(4, 4, 2)\<close> of the two letters \<open>cc\<close> of the
  reading \<open>ccc\<close>, and for the third letter the cell \<open>(4, 4, 1)\<close> of the reading \<open>b\<close>,
  which was written at position 6 and carried forward.
\<close>

lemma twoReadings_slices:
  "pinyinSlice twoReadings 0 5 = sliceString twoReadingsMatcher
   \<and> boundarySlice twoReadings 0 5 = sliceBoundary twoReadingsMatcher
   \<and> at (boundarySlice twoReadings 0 5) 1 = Some (startBoundary twoReadingsMatcher, endBoundary twoReadingsMatcher)
   \<and> matchPositionsFrom 0 (sliceString twoReadingsMatcher) (word twoReadingsMatcher) = [0, 3, 5]"
  by code_simp

lemma twoReadings_scoringLoops: "scoringLoops twoReadingsMatcher [0, 3, 5] = Inr twoReadingsFinal"
  by code_simp

text \<open>
  Claim C7: a match never takes letters from two readings of one character. The test of
  line 87 refuses a letter of another reading of the character of the predecessor, as the
  lemma above says, but the ranges are put together from the cells of the last row, which
  can belong to different alignments. In \<open>twoReadings\<close> the last character has the
  readings \<open>b\<close> (offset 5) and \<open>ccc\<close> (offset 6); for the word \<open>ccb\<close> the code returns
  the character 4 twice: two letters from the reading \<open>ccc\<close> and the third one from
  the reading \<open>b\<close> of the same character.
\<close>

theorem readings_mixed_example:
  "boundary twoReadings ! 6 = (4, 5) \<and> boundary twoReadings ! 7 = (4, 6)
   \<and> boundary twoReadings ! 8 = (4, 6) \<and> boundary twoReadings ! 9 = (4, 6)
   \<and> searchByBoundaryMapping twoReadings (js ''ccb'') 0 5 = Some (Inr (Some [(4, 4), (4, 4)]))"
proof -
  have "searchByBoundaryMapping twoReadings (js ''ccb'') 0 5 = Some (Inr (Some [(4, 4), (4, 4)]))"
    by code_simp
  then show ?thesis by (simp add: twoReadings_def)
qed

text \<open>
  Claim C8. For the source \<open>no_node\<close> under the identity transliteration and the query
  \<open>nod\<close>, the matcher returns the single range \<open>[3, 5]\<close> of the occurrence inside
  \<open>node\<close>, and so do \<open>searchSentenceByBoundaryMapping\<close> and \<open>searchEntry\<close>.
\<close>

theorem no_node_contiguous:
  "searchByBoundaryMapping (identityMapping (js ''no_node'')) (js ''nod'') 0 7
     = Some (Inr (Some [(3, 5)]))
   \<and> searchSentenceByBoundaryMapping getRestRanges (identityMapping (js ''no_node'')) (js ''nod'')
     = Some (Inr (Some [(3, 5)]))
   \<and> searchEntry getRestRanges (js ''no_node'') (js ''nod'') identityMapping
     = Some (Inr (Some [(3, 5)]))"
proof -
  have "searchWithIndexof (js ''no_node'') (js ''nod'') = Some [(3, 5)]"
    by (simp add: searchWithIndexof_def indexOf_def trim_def isWhiteSpace_def js_def)
  then have "searchSentenceByBoundaryMapping getRestRanges (identityMapping (js ''no_node'')) (js ''nod'')
     = Some (Inr (Some [(3, 5)]))"
    "searchEntry getRestRanges (js ''no_node'') (js ''nod'') identityMapping
     = Some (Inr (Some [(3, 5)]))"
    by (simp_all add: searchSentenceByBoundaryMapping_def searchEntry_def identityMapping_def)
       (simp add: js_def)
  with search_no_node show ?thesis by simp
qed

end
